theory Spec2Isabelle
  imports Complex_Main "HOL-Library.Char_ord" "HOL-Library.List_Lexorder" "HOL-Library.Multiset"
begin

section \<open>Python values seen by the visitor\<close>

text \<open>
  \<^verbatim>\<open>Lib/fontTools/misc/visitor.py\<close> walks arbitrary Python objects. It asks four
  questions of a value: its exact runtime type (\<^verbatim>\<open>type(thing)\<close>), whether it has an
  attribute dictionary (\<^verbatim>\<open>hasattr(obj, "__dict__")\<close>), whether it is an
  \<^verbatim>\<open>enum.Enum\<close> member, and whether it is a \<^verbatim>\<open>list\<close> or a \<^verbatim>\<open>dict\<close>
  (\<^verbatim>\<open>isinstance\<close>, so subclasses count). These answers are independent of each other
  in Python (an instance of a subclass of \<^verbatim>\<open>list\<close> has an attribute dictionary and
  is a list), so a value carries all of them:
  \<^item> \<open>type_of\<close>: the name of the exact runtime type; classes are identified by name;
  \<^item> \<open>is_enum\<close>: \<^verbatim>\<open>isinstance(obj, enum.Enum)\<close>;
  \<^item> \<open>class_attrs\<close>: what the value's class (along its MRO) defines, by name; a
    property is a data descriptor, a plain class attribute or a method is not;
  \<^item> \<open>inst_dict\<close>: the per-instance \<^verbatim>\<open>__dict__\<close>, absent for built-in scalars and
    for classes with \<^verbatim>\<open>__slots__\<close>; an association list with distinct keys;
  \<^item> \<open>payload\<close>: the built-in content: the elements of a list, the items of a dict in
    iteration order, a number, a string, or nothing more than an object.
  Values are finite trees: the visitor has no cycle detection and does not return on a
  cyclic graph.
\<close>

type_synonym tyname = string

datatype pyval =
  PyVal (type_of: tyname) (is_enum: bool) (class_attrs: "(string \<times> cattr) list")
        (inst_dict: "(string \<times> pyval) list option") (payload: payload)
and cattr = DataDescr pyval | ClassAttr pyval
and payload =
    PNone | PBool bool | PInt int | PFloat real | PStr string
  | PList "pyval list" | PDict "(pyval \<times> pyval) list" | PObject

definition py_None :: pyval where
  "py_None = PyVal ''NoneType'' False [] None PNone"

definition py_bool :: "bool \<Rightarrow> pyval" where
  "py_bool b = PyVal ''bool'' False [] None (PBool b)"

definition py_int :: "int \<Rightarrow> pyval" where
  "py_int i = PyVal ''int'' False [] None (PInt i)"

definition py_float :: "real \<Rightarrow> pyval" where
  "py_float x = PyVal ''float'' False [] None (PFloat x)"

definition py_str :: "string \<Rightarrow> pyval" where
  "py_str s = PyVal ''str'' False [] None (PStr s)"

definition py_list :: "pyval list \<Rightarrow> pyval" where
  "py_list xs = PyVal ''list'' False [] None (PList xs)"

definition py_dict :: "(pyval \<times> pyval) list \<Rightarrow> pyval" where
  "py_dict kvs = PyVal ''dict'' False [] None (PDict kvs)"

text \<open>An instance of a user class with the given class-level attributes and fields.\<close>

definition py_object :: "tyname \<Rightarrow> (string \<times> cattr) list \<Rightarrow> (string \<times> pyval) list \<Rightarrow> pyval" where
  "py_object t cas d = PyVal t False cas (Some d) PObject"

datatype pyerror = AssertionError string | IndexError | TypeError | AttributeError

text \<open>
  \<^verbatim>\<open>vars(obj)\<close> is the instance dictionary and raises \<^verbatim>\<open>TypeError\<close> without one.
  \<^verbatim>\<open>getattr(obj, key)\<close> follows Python's attribute lookup: a data descriptor of the
  class first, then the instance dictionary, then any other class attribute.
\<close>

definition vars :: "pyval \<Rightarrow> pyerror + (string \<times> pyval) list" where
  "vars obj = (case inst_dict obj of None \<Rightarrow> Inl TypeError | Some d \<Rightarrow> Inr d)"

definition getattr :: "pyval \<Rightarrow> string \<Rightarrow> pyerror + pyval" where
  "getattr obj key =
     (case map_of (class_attrs obj) key of
        Some (DataDescr v) \<Rightarrow> Inr v
      | other \<Rightarrow>
          (case (case inst_dict obj of None \<Rightarrow> None | Some d \<Rightarrow> map_of d key) of
             Some v \<Rightarrow> Inr v
           | None \<Rightarrow>
               (case other of
                  Some (ClassAttr v) \<Rightarrow> Inr v
                | _ \<Rightarrow> Inl AttributeError)))"

section \<open>Engine classes and their registration tables\<close>

text \<open>
  A handler is a Python function object: \<open>fid\<close> is its identity, \<open>fname\<close> its
  \<^verbatim>\<open>__name__\<close>. The table \<^verbatim>\<open>_visitors\<close> of an engine class maps a node type to a
  dictionary from selectors to handlers; the selector is \<^verbatim>\<open>None\<close> for the whole
  node, \<^verbatim>\<open>"*"\<close> for the wildcard, or a field name. A class has a table of its own
  only once \<^verbatim>\<open>"_visitors" in cls.__dict__\<close>; \<open>mro\<close> is \<^verbatim>\<open>cls.mro()\<close>, the class
  itself first.
\<close>

type_synonym cname = string
type_synonym selector = "string option"

datatype handler = Handler (fid: nat) (fname: string)

type_synonym attrtable = "selector \<rightharpoonup> handler"
type_synonym visitors = "tyname \<rightharpoonup> attrtable"

record pyclass =
  own_visitors :: "visitors option"
  mro :: "cname list"

type_synonym classenv = "cname \<Rightarrow> pyclass"

subsection \<open>Registration (\<^verbatim>\<open>_register\<close>, \<^verbatim>\<open>register\<close>, \<^verbatim>\<open>register_attr\<close>, \<^verbatim>\<open>register_attrs\<close>)\<close>

text \<open>
  The arguments of the decorators: a class or a tuple of classes, and a field name or a
  tuple of selectors.
\<close>

datatype clazzes = Clazz tyname | Clazzes "tyname list"
datatype attrs = Attr string | Attrs "selector list"

fun clazzes_tuple :: "clazzes \<Rightarrow> tyname list" where
  "clazzes_tuple (Clazz c) = [c]"
| "clazzes_tuple (Clazzes cs) = cs"

fun attrs_tuple :: "attrs \<Rightarrow> selector list" where
  "attrs_tuple (Attr a) = [Some a]"
| "attrs_tuple (Attrs as) = as"

text \<open>The f-string of the assertion at lines 26 to 28; \<^verbatim>\<open>None\<close> prints as \<^verbatim>\<open>None\<close>.\<close>

definition str_selector :: "selector \<Rightarrow> string" where
  "str_selector a = (case a of None \<Rightarrow> ''None'' | Some s \<Rightarrow> s)"

definition oops_message :: "tyname \<Rightarrow> selector \<Rightarrow> string" where
  "oops_message clazz attr =
     ''Oops, class '' @ [CHR 0x27] @ clazz @ [CHR 0x27] @ '' has visitor function for ''
       @ [CHR 0x27] @ str_selector attr @ [CHR 0x27] @ '' defined already.''"

text \<open>
  The checks of \<^verbatim>\<open>_register\<close> are \<^verbatim>\<open>assert\<close> statements. Python runs them only while
  \<^verbatim>\<open>__debug__\<close> is true, which it is unless the interpreter was started with \<^verbatim>\<open>-O\<close>:
  \<open>debug\<close> is that flag, and with it off an \<^verbatim>\<open>assert\<close> is no statement at all.

  The three nested loops of \<^verbatim>\<open>wrapper\<close>. The tables are mutated in place, so what was
  written before a failing assertion stays written: each loop returns the table and the
  exception, if any.
\<close>

fun register_attr_loop ::
  "bool \<Rightarrow> handler \<Rightarrow> tyname \<Rightarrow> attrtable \<Rightarrow> selector list \<Rightarrow> attrtable \<times> pyerror option" where
  "register_attr_loop debug m clazz t [] = (t, None)"
| "register_attr_loop debug m clazz t (attr # as) =
     (if debug \<and> t attr \<noteq> None then (t, Some (AssertionError (oops_message clazz attr)))
      else register_attr_loop debug m clazz (t(attr \<mapsto> m)) as)"

fun register_clazz_loop ::
  "bool \<Rightarrow> handler \<Rightarrow> selector list \<Rightarrow> visitors \<Rightarrow> tyname list \<Rightarrow> visitors \<times> pyerror option" where
  "register_clazz_loop debug m as vs [] = (vs, None)"
| "register_clazz_loop debug m as vs (clazz # cs) =
     (case register_attr_loop debug m clazz (case vs clazz of None \<Rightarrow> Map.empty | Some t \<Rightarrow> t) as of
        (t, Some e) \<Rightarrow> (vs(clazz \<mapsto> t), Some e)
      | (t, None) \<Rightarrow> register_clazz_loop debug m as (vs(clazz \<mapsto> t)) cs)"

fun wrapper_loop ::
  "bool \<Rightarrow> handler \<Rightarrow> visitors \<Rightarrow> (clazzes \<times> attrs) list \<Rightarrow> visitors \<times> pyerror option" where
  "wrapper_loop debug m vs [] = (vs, None)"
| "wrapper_loop debug m vs (ca # cas) =
     (case register_clazz_loop debug m (attrs_tuple (snd ca)) vs (clazzes_tuple (fst ca)) of
        (vs', Some e) \<Rightarrow> (vs', Some e)
      | (vs', None) \<Rightarrow> wrapper_loop debug m vs' cas)"

text \<open>
  \<open>register_impl\<close> is \<^verbatim>\<open>_register(celf, clazzes_attrs)(method)\<close>: the decorator built
  and applied to the handler, which is when a class body runs it. The class environment
  is the state; it is returned with the exception, if any.
\<close>

definition register_impl ::
  "bool \<Rightarrow> classenv \<Rightarrow> cname \<Rightarrow> (clazzes \<times> attrs) list \<Rightarrow> handler \<Rightarrow> classenv \<times> pyerror option" where
  "register_impl debug ce celf clazzes_attrs m =
     (if debug \<and> celf = ''Visitor'' then (ce, Some (AssertionError ''Subclass Visitor instead.''))
      else
        let vs = (case own_visitors (ce celf) of None \<Rightarrow> Map.empty | Some vs \<Rightarrow> vs)
        in if debug \<and> fname m \<noteq> ''visit''
           then (ce(celf := (ce celf)\<lparr>own_visitors := Some vs\<rparr>), Some (AssertionError []))
           else case wrapper_loop debug m vs clazzes_attrs of
                  (vs', r) \<Rightarrow> (ce(celf := (ce celf)\<lparr>own_visitors := Some vs'\<rparr>), r))"

definition register :: "bool \<Rightarrow> classenv \<Rightarrow> cname \<Rightarrow> clazzes \<Rightarrow> handler \<Rightarrow> classenv \<times> pyerror option" where
  "register debug ce c cs m = register_impl debug ce c [(Clazzes (clazzes_tuple cs), Attrs [None])] m"

definition register_attr ::
  "bool \<Rightarrow> classenv \<Rightarrow> cname \<Rightarrow> clazzes \<Rightarrow> attrs \<Rightarrow> handler \<Rightarrow> classenv \<times> pyerror option" where
  "register_attr debug ce c cs as m =
     register_impl debug ce c (map (\<lambda>clazz. (Clazz clazz, Attrs (attrs_tuple as))) (clazzes_tuple cs)) m"

definition register_attrs ::
  "bool \<Rightarrow> classenv \<Rightarrow> cname \<Rightarrow> (clazzes \<times> attrs) list \<Rightarrow> handler \<Rightarrow> classenv \<times> pyerror option" where
  "register_attrs debug ce c clazzes_attrs m = register_impl debug ce c clazzes_attrs m"

text \<open>The (node type, selector) pairs a registration asks for, in the loops' order.\<close>

definition requested :: "(clazzes \<times> attrs) list \<Rightarrow> (tyname \<times> selector) list" where
  "requested clazzes_attrs =
     concat (map (\<lambda>ca. concat (map (\<lambda>clazz. map (\<lambda>attr. (clazz, attr)) (attrs_tuple (snd ca)))
                                   (clazzes_tuple (fst ca)))) clazzes_attrs)"

subsection \<open>Resolution (\<^verbatim>\<open>_visitorsFor\<close>)\<close>

text \<open>
  \<^verbatim>\<open>getattr(cls, "_visitors", None)\<close> is a class attribute lookup: the table of the first
  class of \<^verbatim>\<open>cls\<close>'s own MRO that has one.
\<close>

fun class_getattr_visitors :: "classenv \<Rightarrow> cname list \<Rightarrow> visitors option" where
  "class_getattr_visitors ce [] = None"
| "class_getattr_visitors ce (c # cs) =
     (case own_visitors (ce c) of
        Some vs \<Rightarrow> Some vs
      | None \<Rightarrow> class_getattr_visitors ce cs)"

text \<open>
  The loop of lines 57 to 67 over \<^verbatim>\<open>cls.mro()\<close>: it breaks at the first class that sees
  no table, returns the first entry for the type, and falls back on the empty
  \<^verbatim>\<open>_default\<close>.
\<close>

fun visitorsFor_loop :: "classenv \<Rightarrow> tyname \<Rightarrow> cname list \<Rightarrow> attrtable" where
  "visitorsFor_loop ce typ [] = Map.empty"
| "visitorsFor_loop ce typ (c # cs) =
     (case class_getattr_visitors ce (mro (ce c)) of
        None \<Rightarrow> Map.empty
      | Some vs \<Rightarrow>
          (case vs typ of
             Some m \<Rightarrow> m
           | None \<Rightarrow> visitorsFor_loop ce typ cs))"

definition visitorsFor :: "classenv \<Rightarrow> cname \<Rightarrow> pyval \<Rightarrow> attrtable" where
  "visitorsFor ce c thing = visitorsFor_loop ce (type_of thing) (mro (ce c))"

section \<open>The traversal\<close>

text \<open>
  An engine instance: its class environment and class, its \<^verbatim>\<open>defaultStop\<close>, and what
  each handler returns when called on a node (\<open>call_node\<close>) or on a field
  (\<open>call_attr\<close>). The extra arguments of \<^verbatim>\<open>visit\<close> are handed on unchanged and are part
  of these two functions. Handlers are taken to return; one that raises ends the
  traversal there.

  What a traversal does is the sequence of its calls to handlers and to the leaf hook,
  with the exception that ended it, if any.
\<close>

record engine =
  env :: classenv
  cls :: cname
  defaultStop :: bool
  call_node :: "nat \<Rightarrow> pyval \<Rightarrow> pyval"
  call_attr :: "nat \<Rightarrow> pyval \<Rightarrow> string \<Rightarrow> pyval \<Rightarrow> pyval"

datatype event =
    NodeCall handler pyval
  | AttrCall handler pyval string pyval
  | Leaf pyval

type_synonym outcome = "event list \<times> pyerror option"

definition emit :: "event \<Rightarrow> outcome \<Rightarrow> outcome" where
  "emit ev k = (ev # fst k, snd k)"

definition and_then :: "outcome \<Rightarrow> outcome \<Rightarrow> outcome" where
  "and_then r k =
     (case r of
        (t, Some e) \<Rightarrow> (t, Some e)
      | (t, None) \<Rightarrow> (t @ fst k, snd k))"

text \<open>
  \<^verbatim>\<open>ret == False\<close> is Python equality: it holds of \<^verbatim>\<open>False\<close>, of the integer zero
  and of the float zero (values with an \<^verbatim>\<open>__eq__\<close> of their own are not modelled).
  \<^verbatim>\<open>ret is None\<close> is identity with the one \<^verbatim>\<open>None\<close>.
\<close>

definition eq_False :: "pyval \<Rightarrow> bool" where
  "eq_False ret =
     (case payload ret of
        PBool b \<Rightarrow> \<not> b
      | PInt i \<Rightarrow> i = 0
      | PFloat x \<Rightarrow> x = 0
      | _ \<Rightarrow> False)"

definition is_None :: "pyval \<Rightarrow> bool" where
  "is_None ret = (payload ret = PNone)"

text \<open>The test of lines 89 and 131.\<close>

definition stops :: "engine \<Rightarrow> pyval \<Rightarrow> bool" where
  "stops self ret = (eq_False ret \<or> (is_None ret \<and> defaultStop self))"

text \<open>\<^verbatim>\<open>visitLeaf\<close> does nothing; the event records that it was called.\<close>

definition visitLeaf :: "engine \<Rightarrow> pyval \<Rightarrow> outcome" where
  "visitLeaf self obj = ([Leaf obj], None)"

lemma map_of_size:
  "map_of xs k = Some y \<Longrightarrow> f y < size_list (size_prod (\<lambda>x. 0) f) xs"
  by (induction xs) (auto split: if_splits)

lemma getattr_size:
  "getattr obj key = Inr v \<Longrightarrow> size v < size obj"
proof (cases obj)
  case (PyVal t e cas d p)
  assume g: "getattr obj key = Inr v"
  show ?thesis
  proof (cases "map_of cas key")
    case None
    with g PyVal obtain dd where "d = Some dd" "map_of dd key = Some v"
      by (auto simp: getattr_def split: option.splits)
    then show ?thesis using PyVal map_of_size [of dd key v size] by simp
  next
    case (Some ca)
    show ?thesis
    proof (cases ca)
      case (DataDescr w)
      with g PyVal Some have "w = v" by (simp add: getattr_def)
      then show ?thesis
        using PyVal Some DataDescr map_of_size [of cas key ca size] by simp
    next
      case (ClassAttr w)
      show ?thesis
      proof (cases "case d of None \<Rightarrow> None | Some dd \<Rightarrow> map_of dd key")
        case None
        with g PyVal Some ClassAttr have "w = v" by (simp add: getattr_def)
        then show ?thesis
          using PyVal Some ClassAttr map_of_size [of cas key ca size] by simp
      next
        case (Some u)
        with g PyVal \<open>map_of cas key = Some ca\<close> ClassAttr have "u = v"
          by (simp add: getattr_def)
        with Some obtain dd where "d = Some dd" "map_of dd key = Some v"
          by (auto split: option.splits)
        then show ?thesis using PyVal map_of_size [of dd key v size] by simp
      qed
    qed
  qed
qed

lemma payload_list_size:
  "payload obj = PList xs \<Longrightarrow> size_list size xs < size obj"
  by (cases obj) simp

lemma payload_dict_size:
  "payload obj = PDict kvs \<Longrightarrow> size_list (size_prod size size) kvs < size obj"
  by (cases obj) simp

text \<open>
  \<^verbatim>\<open>visit\<close> (lines 128 to 132) and the shape test it ends with (\<open>visit_dispatch\<close>,
  lines 133 to 140), \<^verbatim>\<open>visitObject\<close> with its loop over the sorted keys,
  \<^verbatim>\<open>visitAttr\<close>, \<^verbatim>\<open>visitList\<close> and \<^verbatim>\<open>visitDict\<close>. \<^verbatim>\<open>key[0]\<close> raises
  \<^verbatim>\<open>IndexError\<close> on the empty string.
\<close>

function (sequential)
    visit :: "engine \<Rightarrow> pyval \<Rightarrow> outcome"
and visit_dispatch :: "engine \<Rightarrow> pyval \<Rightarrow> outcome"
and visitObject :: "engine \<Rightarrow> pyval \<Rightarrow> outcome"
and visitObject_loop ::
      "engine \<Rightarrow> pyval \<Rightarrow> attrtable \<Rightarrow> handler option \<Rightarrow> string list \<Rightarrow> outcome"
and visitAttr :: "engine \<Rightarrow> pyval \<Rightarrow> string \<Rightarrow> pyval \<Rightarrow> outcome"
and visitList :: "engine \<Rightarrow> pyval list \<Rightarrow> outcome"
and visitDict :: "engine \<Rightarrow> (pyval \<times> pyval) list \<Rightarrow> outcome"
where
  "visit self obj =
     (case visitorsFor (env self) (cls self) obj None of
        Some visitorFunc \<Rightarrow>
          if stops self (call_node self (fid visitorFunc) obj)
          then emit (NodeCall visitorFunc obj) ([], None)
          else emit (NodeCall visitorFunc obj) (visit_dispatch self obj)
      | None \<Rightarrow> visit_dispatch self obj)"
| "visit_dispatch self obj =
     (if inst_dict obj \<noteq> None \<and> \<not> is_enum obj then visitObject self obj
      else case payload obj of
             PList xs \<Rightarrow> visitList self xs
           | PDict kvs \<Rightarrow> visitDict self kvs
           | _ \<Rightarrow> visitLeaf self obj)"
| "visitObject self obj =
     (case vars obj of
        Inl e \<Rightarrow> ([], Some e)
      | Inr d \<Rightarrow>
          visitObject_loop self obj
            (visitorsFor (env self) (cls self) obj)
            (visitorsFor (env self) (cls self) obj (Some ''*''))
            (sort (map fst d)))"
| "visitObject_loop self obj visitors defaultVisitor [] = ([], None)"
| "visitObject_loop self obj visitors defaultVisitor (key # keys) =
     (case key of
        [] \<Rightarrow> ([], Some IndexError)
      | c # _ \<Rightarrow>
          if c = CHR ''_'' then visitObject_loop self obj visitors defaultVisitor keys
          else
            (case getattr obj key of
               Inl e \<Rightarrow> ([], Some e)
             | Inr v \<Rightarrow>
                 (case (case visitors (Some key) of
                          Some f \<Rightarrow> Some f
                        | None \<Rightarrow> defaultVisitor) of
                    Some visitorFunc \<Rightarrow>
                      if stops self (call_attr self (fid visitorFunc) obj key v)
                      then emit (AttrCall visitorFunc obj key v)
                             (visitObject_loop self obj visitors defaultVisitor keys)
                      else emit (AttrCall visitorFunc obj key v)
                             (and_then (visitAttr self obj key v)
                                (visitObject_loop self obj visitors defaultVisitor keys))
                  | None \<Rightarrow>
                      and_then (visitAttr self obj key v)
                        (visitObject_loop self obj visitors defaultVisitor keys))))"
| "visitAttr self obj attr v = visit self v"
| "visitList self [] = ([], None)"
| "visitList self (v # vs) = and_then (visit self v) (visitList self vs)"
| "visitDict self [] = ([], None)"
| "visitDict self (kv # kvs) = and_then (visit self (snd kv)) (visitDict self kvs)"
  by pat_completeness auto
termination
  by (relation "measures [
     (\<lambda>x. case x of
        Inl (Inl (self, obj)) \<Rightarrow> size obj
      | Inl (Inr (Inl (self, obj))) \<Rightarrow> size obj
      | Inl (Inr (Inr (self, obj))) \<Rightarrow> size obj
      | Inr (Inl (Inl (self, obj, vs, d, keys))) \<Rightarrow> size obj
      | Inr (Inl (Inr (self, obj, a, v))) \<Rightarrow> size v
      | Inr (Inr (Inl (self, xs))) \<Rightarrow> size_list size xs
      | Inr (Inr (Inr (self, kvs))) \<Rightarrow> size_list (size_prod size size) kvs),
     (\<lambda>x. case x of
        Inl (Inl (self, obj)) \<Rightarrow> 3
      | Inl (Inr (Inl (self, obj))) \<Rightarrow> 2
      | Inl (Inr (Inr (self, obj))) \<Rightarrow> 1
      | Inr (Inl (Inl (self, obj, vs, d, keys))) \<Rightarrow> 0
      | Inr (Inl (Inr (self, obj, a, v))) \<Rightarrow> 4
      | Inr (Inr (Inl (self, xs))) \<Rightarrow> 0
      | Inr (Inr (Inr (self, kvs))) \<Rightarrow> 0),
     (\<lambda>x. case x of
        Inr (Inl (Inl (self, obj, vs, d, keys))) \<Rightarrow> length keys
      | _ \<Rightarrow> 0)]")
    (auto simp: getattr_size payload_list_size payload_dict_size)

section \<open>Notions the properties are stated with\<close>

text \<open>Running outcomes one after the other, as a \<^verbatim>\<open>for\<close> loop does: the first exception ends it.\<close>

definition sequence :: "outcome list \<Rightarrow> outcome" where
  "sequence rs = foldr and_then rs ([], None)"

text \<open>
  A field name is private when it begins with the underscore, and the public fields of an
  instance dictionary are the names that are not, in sorted order.
\<close>

definition is_private :: "string \<Rightarrow> bool" where
  "is_private key = (case key of [] \<Rightarrow> False | c # _ \<Rightarrow> c = CHR ''_'')"

definition public_fields :: "(string \<times> pyval) list \<Rightarrow> string list" where
  "public_fields d = filter (\<lambda>key. \<not> is_private key) (sort (map fst d))"

text \<open>
  What the body of the loop of \<^verbatim>\<open>visitObject\<close> does for one key that passed the test of
  line 83 (lines 85 to 91).
\<close>

definition visit_field ::
  "engine \<Rightarrow> pyval \<Rightarrow> attrtable \<Rightarrow> handler option \<Rightarrow> string \<Rightarrow> outcome" where
  "visit_field self obj visitors defaultVisitor key =
     (case getattr obj key of
        Inl e \<Rightarrow> ([], Some e)
      | Inr v \<Rightarrow>
          (case (case visitors (Some key) of Some f \<Rightarrow> Some f | None \<Rightarrow> defaultVisitor) of
             Some visitorFunc \<Rightarrow>
               emit (AttrCall visitorFunc obj key v)
                 (if stops self (call_attr self (fid visitorFunc) obj key v) then ([], None)
                  else visitAttr self obj key v)
           | None \<Rightarrow> visitAttr self obj key v))"

text \<open>A pair (node type, selector) has a handler in a table.\<close>

definition registered :: "visitors \<Rightarrow> tyname \<Rightarrow> selector \<Rightarrow> bool" where
  "registered vs clazz attr = (case vs clazz of None \<Rightarrow> False | Some t \<Rightarrow> t attr \<noteq> None)"


section \<open>The diagnostic carrier (\<^verbatim>\<open>Lib/fontTools/otlLib/error.py\<close>)\<close>

text \<open>
  \<^verbatim>\<open>OpenTypeLibError(message, location)\<close>: the location is \<^verbatim>\<open>None\<close> or a string.
  \<^verbatim>\<open>__str__\<close> tests the truth value of the location, which is false for \<^verbatim>\<open>None\<close> and
  for the empty string, and formats it with \<^verbatim>\<open>str\<close>.
\<close>

record OpenTypeLibError =
  message :: string
  location :: "string option"

definition init_OpenTypeLibError :: "string \<Rightarrow> string option \<Rightarrow> OpenTypeLibError" where
  "init_OpenTypeLibError msg loc = \<lparr>message = msg, location = loc\<rparr>"

text \<open>
  A call of the constructor: \<^verbatim>\<open>__init__(self, message, location)\<close> has no default for
  the location, so a call that leaves it out raises \<^verbatim>\<open>TypeError\<close>. The second argument
  is \<open>None\<close> when the call passes no location, and the location passed otherwise.
\<close>

definition call_OpenTypeLibError ::
  "string \<Rightarrow> string option option \<Rightarrow> pyerror + OpenTypeLibError" where
  "call_OpenTypeLibError msg arg =
     (case arg of
        None \<Rightarrow> Inl TypeError
      | Some loc \<Rightarrow> Inr (init_OpenTypeLibError msg loc))"

definition truthy :: "string option \<Rightarrow> bool" where
  "truthy loc = (case loc of None \<Rightarrow> False | Some s \<Rightarrow> s \<noteq> [])"

definition str_OpenTypeLibError :: "OpenTypeLibError \<Rightarrow> string" where
  "str_OpenTypeLibError self =
     (if truthy (location self) then str_selector (location self) @ '': '' @ message self
      else message self)"

text \<open>Every call of a field handler in an outcome is on a node of size at most \<open>n\<close>.\<close>

definition attr_calls_within :: "nat \<Rightarrow> outcome \<Rightarrow> bool" where
  "attr_calls_within n r = (\<forall>f node k w. AttrCall f node k w \<in> set (fst r) \<longrightarrow> size node \<le> n)"

text \<open>The pairs the two inner loops of \<^verbatim>\<open>wrapper\<close> go through, in their order.\<close>

definition pairs_of :: "tyname list \<Rightarrow> selector list \<Rightarrow> (tyname \<times> selector) list" where
  "pairs_of cs as = concat (map (\<lambda>clazz. map (\<lambda>attr. (clazz, attr)) as) cs)"

section \<open>Example engines and nodes\<close>

text \<open>
  Engine classes \<^verbatim>\<open>A(Visitor)\<close> and \<^verbatim>\<open>B(A)\<close>: \<^verbatim>\<open>A\<close> has a whole-node handler for the
  node type \<^verbatim>\<open>T\<close>, \<^verbatim>\<open>B\<close> a handler for the field \<^verbatim>\<open>x\<close> of \<^verbatim>\<open>U\<close>. The engine class
  \<^verbatim>\<open>W(Visitor)\<close> has a handler for the field \<^verbatim>\<open>x\<close> of \<^verbatim>\<open>U\<close> and a wildcard handler for
  \<^verbatim>\<open>U\<close>.
\<close>

definition ex_env :: classenv where
  "ex_env c =
     (if c = ''A'' then
        \<lparr>own_visitors = Some [''T'' \<mapsto> [None \<mapsto> Handler 1 ''visit'']],
         mro = [''A'', ''Visitor'', ''object'']\<rparr>
      else if c = ''B'' then
        \<lparr>own_visitors = Some [''U'' \<mapsto> [Some ''x'' \<mapsto> Handler 2 ''visit'']],
         mro = [''B'', ''A'', ''Visitor'', ''object'']\<rparr>
      else if c = ''W'' then
        \<lparr>own_visitors =
           Some [''U'' \<mapsto> [Some ''x'' \<mapsto> Handler 2 ''visit'', Some ''*'' \<mapsto> Handler 3 ''visit'']],
         mro = [''W'', ''Visitor'', ''object'']\<rparr>
      else if c = ''Visitor'' then \<lparr>own_visitors = None, mro = [''Visitor'', ''object'']\<rparr>
      else \<lparr>own_visitors = None, mro = [c]\<rparr>)"

text \<open>An engine of class \<^verbatim>\<open>B\<close> whose handlers all return the given value.\<close>

definition ex_engine :: "bool \<Rightarrow> pyval \<Rightarrow> engine" where
  "ex_engine ds ret = \<lparr>env = ex_env, cls = ''B'', defaultStop = ds,
     call_node = (\<lambda>h obj. ret), call_attr = (\<lambda>h obj k v. ret)\<rparr>"

definition ex_T :: pyval where
  "ex_T = py_object ''T'' [] [(''b'', py_int 1), (''a'', py_int 2)]"

definition ex_U :: pyval where
  "ex_U = py_object ''U'' [] [(''y'', py_int 3), (''x'', py_int 4), (''_p'', py_int 5)]"



text \<open>A node with a field whose name is the empty string.\<close>

definition ex_empty_name :: pyval where
  "ex_empty_name = py_object ''N'' [] [(''a'', py_int 1), ('''', py_int 2)]"

text \<open>A node whose field \<^verbatim>\<open>a\<close> holds the node above, and with a second field \<^verbatim>\<open>b\<close>.\<close>

definition ex_nested :: pyval where
  "ex_nested = py_object ''N'' [] [(''a'', ex_empty_name), (''b'', py_int 3)]"

text \<open>
  A node whose class defines a property \<^verbatim>\<open>x\<close> and a class attribute \<^verbatim>\<open>y\<close>, and whose
  instance dictionary has an entry \<^verbatim>\<open>x\<close> too.
\<close>

definition ex_property :: pyval where
  "ex_property =
     py_object ''P'' [(''x'', DataDescr (py_int 2)), (''y'', ClassAttr (py_int 3))]
       [(''x'', py_int 1)]"

text \<open>The class environment before anything is registered.\<close>

definition empty_env :: classenv where
  "empty_env c =
     (if c = ''A'' then \<lparr>own_visitors = None, mro = [''A'', ''Visitor'', ''object'']\<rparr>
      else if c = ''B'' then \<lparr>own_visitors = None, mro = [''B'', ''A'', ''Visitor'', ''object'']\<rparr>
      else if c = ''Visitor'' then \<lparr>own_visitors = None, mro = [''Visitor'', ''object'']\<rparr>
      else \<lparr>own_visitors = None, mro = [c]\<rparr>)"

text \<open>
  The list \<^verbatim>\<open>[{"a": 1}, {"b": 2}]\<close>, a member of an enumeration with its attribute
  dictionary, and an instance of a subclass of \<^verbatim>\<open>list\<close> with a field.
\<close>

definition ex_list_of_dicts :: pyval where
  "ex_list_of_dicts =
     py_list [py_dict [(py_str ''a'', py_int 1)], py_dict [(py_str ''b'', py_int 2)]]"

definition ex_enum :: pyval where
  "ex_enum =
     PyVal ''Color'' True [] (Some [(''_name_'', py_str ''RED''), (''_value_'', py_int 1)]) PObject"

definition ex_list_subclass :: pyval where
  "ex_list_subclass = PyVal ''MyList'' False [] (Some [(''tag'', py_int 7)]) (PList [py_int 8])"

text \<open>The environment after \<^verbatim>\<open>A.register(T)\<close>.\<close>

definition ex_registered_env :: classenv where
  "ex_registered_env =
     fst (register_impl True empty_env ''A'' [(Clazz ''T'', Attrs [None])] (Handler 1 ''visit''))"

text \<open>
  A \<^verbatim>\<open>U\<close> whose class defines a class attribute \<^verbatim>\<open>y\<close> and a property \<^verbatim>\<open>z\<close>, with
  the one field \<^verbatim>\<open>x\<close>; and a \<^verbatim>\<open>U\<close> whose class defines a property \<^verbatim>\<open>x\<close> and whose
  instance dictionary has an entry \<^verbatim>\<open>x\<close> as well.
\<close>

definition ex_class_attrs :: pyval where
  "ex_class_attrs =
     py_object ''U'' [(''y'', ClassAttr (py_int 3)), (''z'', DataDescr (py_int 6))]
       [(''x'', py_int 4)]"

definition ex_shadowed :: pyval where
  "ex_shadowed = py_object ''U'' [(''x'', DataDescr (py_int 2))] [(''x'', py_int 1)]"

section \<open>Auxiliary facts\<close>

declare visit.simps [simp del]

declare visit_dispatch.simps [simp del]

declare visitObject.simps [simp del]

declare visitObject_loop.simps(2) [simp del]

lemma and_then_Nil [simp]: "and_then ([], None) k = k"
  by (simp add: and_then_def)

lemma and_then_raise [simp]: "and_then (t, Some e) k = (t, Some e)"
  by (simp add: and_then_def)

lemma and_then_done [simp]: "and_then r ([], None) = r"
  by (cases r) (auto simp: and_then_def split: option.splits)

lemma emit_and_then: "emit ev (and_then a b) = and_then (emit ev a) b"
  by (cases a) (auto simp: emit_def and_then_def split: option.splits)

lemma emit_Nil: "emit ev k = and_then ([ev], None) k"
  by (simp add: emit_def and_then_def)

lemma sequence_Nil [simp]: "sequence [] = ([], None)"
  by (simp add: sequence_def)

lemma sequence_Cons [simp]: "sequence (r # rs) = and_then r (sequence rs)"
  by (simp add: sequence_def)

lemma visitObject_loop_private:
  "visitObject_loop self obj vs dflt ((CHR ''_'' # cs) # keys) =
     visitObject_loop self obj vs dflt keys"
  by (simp add: visitObject_loop.simps)

lemma visitObject_loop_public:
  "c \<noteq> CHR ''_'' \<Longrightarrow>
   visitObject_loop self obj vs dflt ((c # cs) # keys) =
     and_then (visit_field self obj vs dflt (c # cs)) (visitObject_loop self obj vs dflt keys)"
  by (simp add: visitObject_loop.simps visit_field_def emit_and_then [symmetric]
      split: sum.splits option.splits)

lemma visitObject_loop_closed:
  "[] \<notin> set keys \<Longrightarrow>
   visitObject_loop self obj vs dflt keys =
     sequence (map (visit_field self obj vs dflt) (filter (\<lambda>key. \<not> is_private key) keys))"
proof (induction keys)
  case Nil
  show ?case by simp
next
  case (Cons key keys)
  then obtain c cs where key: "key = c # cs" by (cases key) auto
  from Cons have IH: "visitObject_loop self obj vs dflt keys =
     sequence (map (visit_field self obj vs dflt) (filter (\<lambda>key. \<not> is_private key) keys))"
    by simp
  show ?case
  proof (cases "c = CHR ''_''")
    case True
    with key IH show ?thesis by (simp add: visitObject_loop_private is_private_def)
  next
    case False
    with key IH show ?thesis by (simp add: visitObject_loop_public is_private_def)
  qed
qed

lemma visitObject_closed:
  assumes "inst_dict obj = Some d" and "[] \<notin> fst ` set d"
  shows "visitObject self obj =
     sequence (map (visit_field self obj (visitorsFor (env self) (cls self) obj)
                      (visitorsFor (env self) (cls self) obj (Some ''*'')))
                 (public_fields d))"
proof -
  have "[] \<notin> set (sort (map fst d))" using assms(2) by simp
  then show ?thesis
    using assms(1) by (simp add: visitObject.simps vars_def visitObject_loop_closed public_fields_def)
qed

lemma public_fields_perm:
  "mset d' = mset d \<Longrightarrow> public_fields d' = public_fields d"
proof -
  assume "mset d' = mset d"
  then have "mset (map fst d') = mset (map fst d)" by (metis mset_map)
  then have "sort (map fst d') = sort (map fst d)"
    by (simp add: properties_for_sort)
  then show ?thesis by (simp add: public_fields_def)
qed

lemma visitList_sequence: "visitList self xs = sequence (map (visit self) xs)"
proof (induction xs)
  case Nil
  show ?case by (simp only: visitList.simps list.map sequence_Nil)
next
  case (Cons x xs)
  then show ?case by (simp only: visitList.simps list.map sequence_Cons)
qed

lemma visitDict_sequence: "visitDict self kvs = sequence (map (\<lambda>kv. visit self (snd kv)) kvs)"
  by (induction kvs) simp_all

lemma public_fields_sorted: "sorted (public_fields d)"
  by (simp add: public_fields_def sorted_wrt_filter)

lemma public_fields_set:
  "set (public_fields d) = {key \<in> fst ` set d. \<not> is_private key}"
  by (simp add: public_fields_def)

lemma public_fields_distinct:
  "distinct (map fst d) \<Longrightarrow> distinct (public_fields d)"
  by (simp add: public_fields_def)

lemma class_getattr_visitors_owner:
  "class_getattr_visitors ce cs = Some vs \<Longrightarrow> \<exists>c\<in>set cs. own_visitors (ce c) = Some vs"
  by (induction cs) (auto split: option.splits)


lemma visitorsFor_loop_none:
  assumes "\<forall>c vs. own_visitors (ce c) = Some vs \<longrightarrow> vs T = None"
  shows "visitorsFor_loop ce T cs = Map.empty"
proof (induction cs)
  case Nil
  show ?case by simp
next
  case (Cons c cs)
  show ?case
  proof (cases "class_getattr_visitors ce (mro (ce c))")
    case None
    then show ?thesis by simp
  next
    case (Some vs)
    then obtain c' where "own_visitors (ce c') = Some vs"
      using class_getattr_visitors_owner by blast
    with assms have "vs T = None" by blast
    with Some Cons show ?thesis by simp
  qed
qed


lemma attr_loop_mono:
  "t a \<noteq> None \<Longrightarrow> fst (register_attr_loop True m clazz t as) a \<noteq> None"
  by (induction as arbitrary: t) auto

lemma attr_loop_conflict:
  "a \<in> set as \<Longrightarrow> t a \<noteq> None \<Longrightarrow>
   \<exists>a'\<in>set as. snd (register_attr_loop True m clazz t as) = Some (AssertionError (oops_message clazz a'))"
proof (induction as arbitrary: t)
  case Nil
  then show ?case by simp
next
  case (Cons b as)
  show ?case
  proof (cases "t b = None")
    case False
    then show ?thesis by simp
  next
    case True
    with Cons.prems have "a \<in> set as" and "(t(b \<mapsto> m)) a \<noteq> None" by auto
    then have "\<exists>a'\<in>set as. snd (register_attr_loop True m clazz (t(b \<mapsto> m)) as)
                 = Some (AssertionError (oops_message clazz a'))"
      by (rule Cons.IH)
    with True show ?thesis by auto
  qed
qed

lemma attr_loop_error:
  "snd (register_attr_loop True m clazz t as) = Some e \<Longrightarrow>
   \<exists>a'\<in>set as. e = AssertionError (oops_message clazz a')"
  by (induction as arbitrary: t) (auto split: if_splits)

lemma attr_loop_success:
  "register_attr_loop True m clazz t as = (t', None) \<Longrightarrow> a \<in> set as \<Longrightarrow> t' a \<noteq> None"
proof (induction as arbitrary: t)
  case Nil
  then show ?case by simp
next
  case (Cons b as)
  from Cons.prems(1) have tb: "t b = None" by (auto split: if_splits)
  with Cons.prems(1) have rec: "register_attr_loop True m clazz (t(b \<mapsto> m)) as = (t', None)" by simp
  show ?case
  proof (cases "a = b")
    case True
    have "fst (register_attr_loop True m clazz (t(b \<mapsto> m)) as) b \<noteq> None"
      by (rule attr_loop_mono) simp
    with rec True show ?thesis by simp
  next
    case False
    with Cons.prems(2) have "a \<in> set as" by simp
    from Cons.IH [OF rec this] show ?thesis .
  qed
qed

lemma clazz_loop_step:
  assumes "register_attr_loop True m d (case vs d of None \<Rightarrow> Map.empty | Some t \<Rightarrow> t) as = (t, r)"
  shows "registered vs c a \<Longrightarrow> registered (vs(d \<mapsto> t)) c a"
proof (cases "c = d")
  case True
  assume "registered vs c a"
  with True obtain t0 where t0: "vs d = Some t0" "t0 a \<noteq> None"
    by (auto simp: registered_def split: option.splits)
  have "fst (register_attr_loop True m d t0 as) a \<noteq> None"
    using t0(2) by (rule attr_loop_mono)
  with assms t0(1) have "t a \<noteq> None" by simp
  with True show ?thesis by (simp add: registered_def)
next
  case False
  assume "registered vs c a"
  with False show ?thesis by (simp add: registered_def)
qed

lemma clazz_loop_mono:
  "registered vs c a \<Longrightarrow> registered (fst (register_clazz_loop True m as vs cs)) c a"
proof (induction cs arbitrary: vs)
  case Nil
  then show ?case by simp
next
  case (Cons d cs)
  obtain t r where loop: "register_attr_loop True m d (case vs d of None \<Rightarrow> Map.empty | Some t \<Rightarrow> t) as = (t, r)"
    by (cases "register_attr_loop True m d (case vs d of None \<Rightarrow> Map.empty | Some t \<Rightarrow> t) as")
  have keep: "registered (vs(d \<mapsto> t)) c a"
    using loop Cons.prems by (rule clazz_loop_step)
  show ?case
  proof (cases r)
    case None
    with loop have step: "register_clazz_loop True m as vs (d # cs) = register_clazz_loop True m as (vs(d \<mapsto> t)) cs"
      by simp
    show ?thesis unfolding step by (rule Cons.IH [OF keep])
  next
    case (Some e)
    with loop have step: "register_clazz_loop True m as vs (d # cs) = (vs(d \<mapsto> t), Some e)"
      by simp
    show ?thesis unfolding step fst_conv by (rule keep)
  qed
qed

lemma clazz_loop_conflict:
  "c \<in> set cs \<Longrightarrow> a \<in> set as \<Longrightarrow> registered vs c a \<Longrightarrow>
   \<exists>c'\<in>set cs. \<exists>a'\<in>set as.
     snd (register_clazz_loop True m as vs cs) = Some (AssertionError (oops_message c' a'))"
proof (induction cs arbitrary: vs)
  case Nil
  then show ?case by simp
next
  case (Cons d cs)
  obtain t r where loop: "register_attr_loop True m d (case vs d of None \<Rightarrow> Map.empty | Some t \<Rightarrow> t) as = (t, r)"
    by (cases "register_attr_loop True m d (case vs d of None \<Rightarrow> Map.empty | Some t \<Rightarrow> t) as")
  have keep: "registered (vs(d \<mapsto> t)) c a"
    using loop Cons.prems(3) by (rule clazz_loop_step)
  show ?case
  proof (cases r)
    case None
    have "c \<noteq> d"
    proof
      assume "c = d"
      with Cons.prems(3) obtain t0 where t0: "vs d = Some t0" "t0 a \<noteq> None"
        by (auto simp: registered_def split: option.splits)
      have "\<exists>a'\<in>set as. snd (register_attr_loop True m d t0 as) = Some (AssertionError (oops_message d a'))"
        using Cons.prems(2) t0(2) by (rule attr_loop_conflict)
      with loop t0(1) None show False by simp
    qed
    with Cons.prems(1) have "c \<in> set cs" by simp
    then have "\<exists>c'\<in>set cs. \<exists>a'\<in>set as.
        snd (register_clazz_loop True m as (vs(d \<mapsto> t)) cs) = Some (AssertionError (oops_message c' a'))"
      using Cons.prems(2) keep by (rule Cons.IH)
    moreover from loop None
    have "register_clazz_loop True m as vs (d # cs) = register_clazz_loop True m as (vs(d \<mapsto> t)) cs"
      by simp
    ultimately show ?thesis by auto
  next
    case (Some e)
    with loop have "snd (register_attr_loop True m d (case vs d of None \<Rightarrow> Map.empty | Some t \<Rightarrow> t) as) = Some e"
      by simp
    then obtain a' where "a' \<in> set as" "e = AssertionError (oops_message d a')"
      using attr_loop_error by blast
    moreover from loop Some
    have "register_clazz_loop True m as vs (d # cs) = (vs(d \<mapsto> t), Some e)"
      by simp
    ultimately show ?thesis by auto
  qed
qed

lemma clazz_loop_error:
  "snd (register_clazz_loop True m as vs cs) = Some e \<Longrightarrow>
   \<exists>c'\<in>set cs. \<exists>a'\<in>set as. e = AssertionError (oops_message c' a')"
proof (induction cs arbitrary: vs)
  case Nil
  then show ?case by simp
next
  case (Cons d cs)
  obtain t r where loop: "register_attr_loop True m d (case vs d of None \<Rightarrow> Map.empty | Some t \<Rightarrow> t) as = (t, r)"
    by (cases "register_attr_loop True m d (case vs d of None \<Rightarrow> Map.empty | Some t \<Rightarrow> t) as")
  show ?case
  proof (cases r)
    case None
    with loop have "register_clazz_loop True m as vs (d # cs) = register_clazz_loop True m as (vs(d \<mapsto> t)) cs"
      by simp
    with Cons.prems have "snd (register_clazz_loop True m as (vs(d \<mapsto> t)) cs) = Some e" by simp
    from Cons.IH [OF this] show ?thesis by auto
  next
    case (Some e')
    with loop have "register_clazz_loop True m as vs (d # cs) = (vs(d \<mapsto> t), Some e')"
      by simp
    with Cons.prems have "e' = e" by simp
    with loop Some have "snd (register_attr_loop True m d (case vs d of None \<Rightarrow> Map.empty | Some t \<Rightarrow> t) as) = Some e"
      by simp
    then obtain a' where "a' \<in> set as" "e = AssertionError (oops_message d a')"
      using attr_loop_error by blast
    then show ?thesis by auto
  qed
qed

lemma clazz_loop_success:
  "register_clazz_loop True m as vs cs = (vs', None) \<Longrightarrow> c \<in> set cs \<Longrightarrow> a \<in> set as \<Longrightarrow>
   registered vs' c a"
proof (induction cs arbitrary: vs)
  case Nil
  then show ?case by simp
next
  case (Cons d cs)
  obtain t r where loop: "register_attr_loop True m d (case vs d of None \<Rightarrow> Map.empty | Some t \<Rightarrow> t) as = (t, r)"
    by (cases "register_attr_loop True m d (case vs d of None \<Rightarrow> Map.empty | Some t \<Rightarrow> t) as")
  have r: "r = None"
  proof (cases r)
    case None
    then show ?thesis .
  next
    case (Some e)
    with loop have "register_clazz_loop True m as vs (d # cs) = (vs(d \<mapsto> t), Some e)" by simp
    with Cons.prems(1) show ?thesis by simp
  qed
  with loop have step: "register_clazz_loop True m as vs (d # cs) = register_clazz_loop True m as (vs(d \<mapsto> t)) cs"
    by simp
  with Cons.prems(1) have rest: "register_clazz_loop True m as (vs(d \<mapsto> t)) cs = (vs', None)" by simp
  show ?case
  proof (cases "c \<in> set cs")
    case True
    from Cons.IH [OF rest True Cons.prems(3)] show ?thesis .
  next
    case False
    with Cons.prems(2) have "c = d" by simp
    from loop r have "t a \<noteq> None"
      using attr_loop_success Cons.prems(3) by blast
    then have "registered (vs(d \<mapsto> t)) d a" by (simp add: registered_def)
    then have "registered (fst (register_clazz_loop True m as (vs(d \<mapsto> t)) cs)) d a"
      by (rule clazz_loop_mono)
    with rest \<open>c = d\<close> show ?thesis by simp
  qed
qed

lemma requested_Cons:
  "requested (ca # cas) =
     concat (map (\<lambda>clazz. map (\<lambda>attr. (clazz, attr)) (attrs_tuple (snd ca))) (clazzes_tuple (fst ca)))
     @ requested cas"
  by (simp add: requested_def)

lemma in_requested_head:
  "(c, a) \<in> set (concat (map (\<lambda>clazz. map (\<lambda>attr. (clazz, attr)) as) cs)) \<longleftrightarrow>
   c \<in> set cs \<and> a \<in> set as"
  by auto

lemma wrapper_loop_mono:
  "registered vs c a \<Longrightarrow> registered (fst (wrapper_loop True m vs req)) c a"
proof (induction req arbitrary: vs)
  case Nil
  then show ?case by simp
next
  case (Cons ca req)
  obtain vs1 r where loop:
    "register_clazz_loop True m (attrs_tuple (snd ca)) vs (clazzes_tuple (fst ca)) = (vs1, r)"
    by (cases "register_clazz_loop True m (attrs_tuple (snd ca)) vs (clazzes_tuple (fst ca))")
  have keep: "registered vs1 c a"
    using clazz_loop_mono [OF Cons.prems, of m "attrs_tuple (snd ca)" "clazzes_tuple (fst ca)"] loop
    by simp
  show ?case
  proof (cases r)
    case None
    with loop have step: "wrapper_loop True m vs (ca # req) = wrapper_loop True m vs1 req" by simp
    show ?thesis unfolding step by (rule Cons.IH [OF keep])
  next
    case (Some e)
    with loop have step: "wrapper_loop True m vs (ca # req) = (vs1, Some e)" by simp
    show ?thesis unfolding step fst_conv by (rule keep)
  qed
qed

lemma wrapper_loop_conflict:
  "(c, a) \<in> set (requested req) \<Longrightarrow> registered vs c a \<Longrightarrow>
   \<exists>c' a'. (c', a') \<in> set (requested req) \<and>
     snd (wrapper_loop True m vs req) = Some (AssertionError (oops_message c' a'))"
proof (induction req arbitrary: vs)
  case Nil
  then show ?case by (simp add: requested_def)
next
  case (Cons ca req)
  let ?as = "attrs_tuple (snd ca)" and ?cs = "clazzes_tuple (fst ca)"
  obtain vs1 r where loop: "register_clazz_loop True m ?as vs ?cs = (vs1, r)"
    by (cases "register_clazz_loop True m ?as vs ?cs")
  have keep: "registered vs1 c a"
    using clazz_loop_mono [OF Cons.prems(2), of m ?as ?cs] loop by simp
  show ?case
  proof (cases r)
    case (Some e)
    with loop have "snd (register_clazz_loop True m ?as vs ?cs) = Some e" by simp
    then obtain c' a' where "c' \<in> set ?cs" "a' \<in> set ?as" "e = AssertionError (oops_message c' a')"
      using clazz_loop_error by blast
    moreover from loop Some have "wrapper_loop True m vs (ca # req) = (vs1, Some e)" by simp
    ultimately show ?thesis
      unfolding requested_Cons by (intro exI [of _ c'] exI [of _ a']) auto
  next
    case None
    with loop have step: "wrapper_loop True m vs (ca # req) = wrapper_loop True m vs1 req" by simp
    have "\<not> (c \<in> set ?cs \<and> a \<in> set ?as)"
    proof
      assume "c \<in> set ?cs \<and> a \<in> set ?as"
      then have "\<exists>c'\<in>set ?cs. \<exists>a'\<in>set ?as.
          snd (register_clazz_loop True m ?as vs ?cs) = Some (AssertionError (oops_message c' a'))"
        using Cons.prems(2) clazz_loop_conflict by blast
      with loop None show False by simp
    qed
    with Cons.prems(1) have "(c, a) \<in> set (requested req)"
      unfolding requested_Cons by auto
    from Cons.IH [OF this keep] step show ?thesis
      unfolding requested_Cons by auto
  qed
qed

lemma wrapper_loop_success:
  "wrapper_loop True m vs req = (vs', None) \<Longrightarrow> (c, a) \<in> set (requested req) \<Longrightarrow>
   registered vs' c a"
proof (induction req arbitrary: vs)
  case Nil
  then show ?case by (simp add: requested_def)
next
  case (Cons ca req)
  let ?as = "attrs_tuple (snd ca)" and ?cs = "clazzes_tuple (fst ca)"
  obtain vs1 r where loop: "register_clazz_loop True m ?as vs ?cs = (vs1, r)"
    by (cases "register_clazz_loop True m ?as vs ?cs")
  have r: "r = None"
  proof (cases r)
    case None
    then show ?thesis .
  next
    case (Some e)
    with loop have "wrapper_loop True m vs (ca # req) = (vs1, Some e)" by simp
    with Cons.prems(1) show ?thesis by simp
  qed
  with loop have "wrapper_loop True m vs (ca # req) = wrapper_loop True m vs1 req" by simp
  with Cons.prems(1) have rest: "wrapper_loop True m vs1 req = (vs', None)" by simp
  show ?case
  proof (cases "(c, a) \<in> set (requested req)")
    case True
    from Cons.IH [OF rest True] show ?thesis .
  next
    case False
    with Cons.prems(2) have "c \<in> set ?cs" "a \<in> set ?as"
      unfolding requested_Cons by auto
    with loop r have "registered vs1 c a"
      using clazz_loop_success by blast
    then have "registered (fst (wrapper_loop True m vs1 req)) c a"
      by (rule wrapper_loop_mono)
    with rest show ?thesis by simp
  qed
qed


lemma register_impl_success:
  assumes "register_impl True ce celf req m = (ce1, None)"
  shows "\<exists>vs vs'. wrapper_loop True m vs req = (vs', None) \<and> own_visitors (ce1 celf) = Some vs'"
proof -
  from assms have nv: "celf \<noteq> ''Visitor''" and nm: "fname m = ''visit''"
    by (auto simp: register_impl_def Let_def split: if_splits)
  let ?vs = "case own_visitors (ce celf) of None \<Rightarrow> Map.empty | Some vs \<Rightarrow> vs"
  obtain vs' r where w: "wrapper_loop True m ?vs req = (vs', r)"
    by (cases "wrapper_loop True m ?vs req")
  with assms nv nm have "r = None" and "ce1 = ce(celf := (ce celf)\<lparr>own_visitors := Some vs'\<rparr>)"
    by (auto simp: register_impl_def Let_def)
  with w show ?thesis by auto
qed

lemma register_impl_again:
  assumes "celf \<noteq> ''Visitor''" and "fname m = ''visit''"
    and "own_visitors (ce celf) = Some vs"
  shows "snd (register_impl True ce celf req m) = snd (wrapper_loop True m vs req)"
  using assms by (simp add: register_impl_def Let_def split: prod.splits)

lemma register_impl_fresh_pair:
  assumes "celf \<noteq> ''Visitor''" and "fname m = ''visit''"
    and "\<forall>vs. own_visitors (ce celf) = Some vs \<longrightarrow> \<not> registered vs T f"
  shows "\<exists>vs t. register_impl True ce celf [(Clazz T, Attrs [f])] m =
           (ce(celf := (ce celf)\<lparr>own_visitors := Some (vs(T \<mapsto> t(f \<mapsto> m)))\<rparr>), None)"
proof (cases "own_visitors (ce celf)")
  case None
  with assms(1,2) show ?thesis
    by (auto simp: register_impl_def Let_def)
next
  case (Some vs)
  with assms(3) have nr: "\<not> registered vs T f" by simp
  show ?thesis
  proof (cases "vs T")
    case None
    with Some assms(1,2) show ?thesis by (auto simp: register_impl_def Let_def)
  next
    case (Some t)
    with nr have "t f = None" by (simp add: registered_def)
    with Some \<open>own_visitors (ce celf) = Some vs\<close> assms(1,2) show ?thesis
      by (auto simp: register_impl_def Let_def)
  qed
qed

lemma acw_empty [simp]: "attr_calls_within n ([], e)"
  by (simp add: attr_calls_within_def)

lemma acw_leaf [simp]: "attr_calls_within n ([Leaf v], e)"
  by (simp add: attr_calls_within_def)

lemma acw_and_then:
  "attr_calls_within n a \<Longrightarrow> attr_calls_within n b \<Longrightarrow> attr_calls_within n (and_then a b)"
  by (cases a) (fastforce simp: attr_calls_within_def and_then_def split: option.splits)

lemma acw_emit_attr:
  "size node \<le> n \<Longrightarrow> attr_calls_within n r \<Longrightarrow> attr_calls_within n (emit (AttrCall f node k w) r)"
  by (auto simp: attr_calls_within_def emit_def)

lemma acw_emit_node:
  "attr_calls_within n r \<Longrightarrow> attr_calls_within n (emit (NodeCall f node) r)"
  by (auto simp: attr_calls_within_def emit_def)

lemma acw_mono: "attr_calls_within m r \<Longrightarrow> m \<le> n \<Longrightarrow> attr_calls_within n r"
  unfolding attr_calls_within_def by (meson le_trans)

lemma attr_calls_bounded:
  "attr_calls_within (size obj) (visit self obj)"
  "attr_calls_within (size obj) (visit_dispatch self obj)"
  "attr_calls_within (size obj) (visitObject self obj)"
  "attr_calls_within (size obj) (visitObject_loop self obj visitors defaultVisitor keys)"
  "attr_calls_within (size v) (visitAttr self obj attr v)"
  "attr_calls_within (size_list size xs) (visitList self xs)"
  "attr_calls_within (size_list (size_prod size size) kvs) (visitDict self kvs)"
proof (induct self obj and self obj and self obj and self obj visitors defaultVisitor keys
    and self obj attr v and self xs and self kvs
    rule: visit_visit_dispatch_visitObject_visitObject_loop_visitAttr_visitList_visitDict.induct)
  case (1 self obj)
  then show ?case
    by (auto simp: visit.simps intro!: acw_emit_node split: option.splits)
next
  case (2 self obj)
  show ?case
  proof (cases "inst_dict obj \<noteq> None \<and> \<not> is_enum obj")
    case True
    with 2(1) show ?thesis by (simp add: visit_dispatch.simps)
  next
    case False
    show ?thesis
    proof (cases "payload obj")
      case (PList xs)
      with False 2(2) have "attr_calls_within (size_list size xs) (visitList self xs)" by simp
      then have "attr_calls_within (size obj) (visitList self xs)"
        using payload_list_size [OF PList] by (auto intro: acw_mono)
      moreover have "visit_dispatch self obj = visitList self xs"
        using False PList by (auto simp: visit_dispatch.simps)
      ultimately show ?thesis by simp
    next
      case (PDict kvs)
      with False 2(3) have "attr_calls_within (size_list (size_prod size size) kvs) (visitDict self kvs)"
        by simp
      then have "attr_calls_within (size obj) (visitDict self kvs)"
        using payload_dict_size [OF PDict] by (auto intro: acw_mono)
      moreover have "visit_dispatch self obj = visitDict self kvs"
        using False PDict by (auto simp: visit_dispatch.simps)
      ultimately show ?thesis by simp
    qed (use False in \<open>auto simp: visit_dispatch.simps visitLeaf_def\<close>)
  qed
next
  case (3 self obj)
  then show ?case
    by (auto simp: visitObject.simps split: sum.splits)
next
  case (4 self obj visitors defaultVisitor)
  show ?case by simp
next
  case (5 self obj visitors defaultVisitor key keys)
  show ?case
  proof (cases key)
    case Nil
    then show ?thesis by (simp add: visitObject_loop.simps)
  next
    case (Cons c cs)
    show ?thesis
    proof (cases "c = CHR ''_''")
      case True
      with Cons 5(1) show ?thesis by (simp add: visitObject_loop.simps)
    next
      case False
      show ?thesis
      proof (cases "getattr obj key")
        case (Inl e)
        with Cons False show ?thesis by (simp add: visitObject_loop.simps)
      next
        case (Inr b)
        have small: "size b \<le> size obj" using getattr_size [OF Inr] by simp
        show ?thesis
        proof (cases "case visitors (Some key) of None \<Rightarrow> defaultVisitor | Some x \<Rightarrow> Some x")
          case None
          from 5(2) [OF Cons False Inr None] small
          have "attr_calls_within (size obj) (visitAttr self obj key b)" by (rule acw_mono)
          moreover note 5(3) [OF Cons False Inr None]
          ultimately have "attr_calls_within (size obj)
              (and_then (visitAttr self obj key b) (visitObject_loop self obj visitors defaultVisitor keys))"
            by (rule acw_and_then)
          with Cons False Inr None show ?thesis
            by (simp add: visitObject_loop.simps split: option.splits)
        next
          case (Some h)
          show ?thesis
          proof (cases "stops self (call_attr self (fid h) obj key b)")
            case True
            from 5(4) [OF Cons False Inr Some True]
            have "attr_calls_within (size obj)
              (emit (AttrCall h obj key b) (visitObject_loop self obj visitors defaultVisitor keys))"
              by (intro acw_emit_attr) simp_all
            with Cons False Inr Some True show ?thesis
              by (simp add: visitObject_loop.simps split: option.splits)
          next
            case nstop: False
            from 5(5) [OF Cons False Inr Some nstop] small
            have "attr_calls_within (size obj) (visitAttr self obj key b)" by (rule acw_mono)
            moreover note 5(6) [OF Cons False Inr Some nstop]
            ultimately have "attr_calls_within (size obj)
              (emit (AttrCall h obj key b)
                 (and_then (visitAttr self obj key b)
                    (visitObject_loop self obj visitors defaultVisitor keys)))"
              by (intro acw_emit_attr acw_and_then) simp_all
            with Cons False Inr Some nstop show ?thesis
              by (simp add: visitObject_loop.simps split: option.splits)
          qed
        qed
      qed
    qed
  qed
next
  case (6 self obj attr v)
  then show ?case by simp
next
  case (7 self)
  show ?case by simp
next
  case (8 self v vs)
  then show ?case by (auto intro!: acw_and_then intro: acw_mono)
next
  case (9 self)
  show ?case by simp
next
  case (10 self kv kvs)
  then show ?case by (cases kv) (auto intro!: acw_and_then intro: acw_mono)
qed

lemma and_then_events:
  "x \<in> set (fst (and_then a b)) \<Longrightarrow> x \<in> set (fst a) \<or> x \<in> set (fst b)"
  by (cases a) (auto simp: and_then_def split: option.splits)

lemma visitAttr_no_call_on_parent:
  assumes "getattr obj key = Inr v"
  shows "AttrCall f obj k w \<notin> set (fst (visitAttr self obj key v))"
proof
  assume "AttrCall f obj k w \<in> set (fst (visitAttr self obj key v))"
  with attr_calls_bounded(5) [of v self obj key] have "size obj \<le> size v"
    unfolding attr_calls_within_def by blast
  with getattr_size [OF assms] show False by simp
qed

lemma visit_field_attr_calls:
  assumes "AttrCall f obj k w \<in> set (fst (visit_field self obj vs dflt key))"
  shows "k = key \<and> getattr obj key = Inr w"
proof (cases "getattr obj key")
  case (Inl e)
  with assms show ?thesis by (simp add: visit_field_def)
next
  case (Inr v)
  note no = visitAttr_no_call_on_parent [OF Inr, of f k w self]
  show ?thesis
  proof (cases "case vs (Some key) of Some f \<Rightarrow> Some f | None \<Rightarrow> dflt")
    case None
    with assms Inr no show ?thesis by (simp add: visit_field_def del: visitAttr.simps)
  next
    case (Some h)
    with assms Inr no show ?thesis
      by (auto simp: visit_field_def emit_def simp del: visitAttr.simps split: if_splits)
  qed
qed

lemma visitObject_loop_attr_calls:
  "AttrCall f obj k w \<in> set (fst (visitObject_loop self obj vs dflt keys)) \<Longrightarrow>
   k \<in> set keys \<and> \<not> is_private k \<and> getattr obj k = Inr w"
proof (induction keys)
  case Nil
  then show ?case by simp
next
  case (Cons key keys)
  show ?case
  proof (cases key)
    case Nil
    with Cons.prems show ?thesis by (simp add: visitObject_loop.simps)
  next
    case (Cons c cs)
    show ?thesis
    proof (cases "c = CHR ''_''")
      case True
      with Cons Cons.prems Cons.IH show ?thesis by (simp add: visitObject_loop_private)
    next
      case False
      with Cons Cons.prems
      have "AttrCall f obj k w \<in> set (fst (and_then (visit_field self obj vs dflt key)
               (visitObject_loop self obj vs dflt keys)))"
        by (simp add: visitObject_loop_public)
      then consider "AttrCall f obj k w \<in> set (fst (visit_field self obj vs dflt key))"
        | "AttrCall f obj k w \<in> set (fst (visitObject_loop self obj vs dflt keys))"
        using and_then_events by blast
      then show ?thesis
      proof cases
        case 1
        from visit_field_attr_calls [OF 1] Cons False show ?thesis
          by (simp add: is_private_def)
      next
        case 2
        from Cons.IH [OF 2] show ?thesis by simp
      qed
    qed
  qed
qed

lemma getattr_instance_value:
  assumes "inst_dict obj = Some d" and "map_of d key = Some v"
    and "\<forall>w. map_of (class_attrs obj) key \<noteq> Some (DataDescr w)"
  shows "getattr obj key = Inr v"
  using assms by (auto simp: getattr_def split: option.splits cattr.splits)

lemma count_list_Pair:
  "count_list (map (Pair d) as) (c, a) = (if c = d then count_list as a else 0)"
  by (induction as) auto

lemma count_list_pos: "x \<in> set xs \<Longrightarrow> 0 < count_list xs x"
  by (induction xs) auto

lemma attr_loop_grows:
  "fst (register_attr_loop True m clazz t as) a \<noteq> None \<Longrightarrow> t a \<noteq> None \<or> a \<in> set as"
proof (induction as arbitrary: t)
  case Nil
  then show ?case by simp
next
  case (Cons b as)
  show ?case
  proof (cases "t b = None")
    case False
    with Cons.prems show ?thesis by simp
  next
    case True
    with Cons.prems have "fst (register_attr_loop True m clazz (t(b \<mapsto> m)) as) a \<noteq> None"
      by simp
    then have "(t(b \<mapsto> m)) a \<noteq> None \<or> a \<in> set as" by (rule Cons.IH)
    then show ?thesis by (cases "a = b") auto
  qed
qed

lemma attr_loop_error_clash:
  "snd (register_attr_loop True m clazz t as) = Some e \<Longrightarrow>
   \<exists>a'\<in>set as. e = AssertionError (oops_message clazz a') \<and>
     (t a' \<noteq> None \<or> 1 < count_list as a')"
proof (induction as arbitrary: t)
  case Nil
  then show ?case by simp
next
  case (Cons b as)
  show ?case
  proof (cases "t b = None")
    case False
    with Cons.prems show ?thesis by auto
  next
    case True
    with Cons.prems have "snd (register_attr_loop True m clazz (t(b \<mapsto> m)) as) = Some e" by simp
    from Cons.IH [OF this] obtain a' where a': "a' \<in> set as"
      "e = AssertionError (oops_message clazz a')"
      "(t(b \<mapsto> m)) a' \<noteq> None \<or> 1 < count_list as a'" by blast
    have "t a' \<noteq> None \<or> 1 < count_list (b # as) a'"
    proof (cases "a' = b")
      case True
      with a'(1) count_list_pos [of a' as] show ?thesis by simp
    next
      case False
      with a'(3) show ?thesis by simp
    qed
    with a'(1,2) show ?thesis by auto
  qed
qed

lemma pairs_of_Cons: "pairs_of (d # cs) as = map (Pair d) as @ pairs_of cs as"
  by (simp add: pairs_of_def)

lemma in_pairs_of: "(c, a) \<in> set (pairs_of cs as) \<longleftrightarrow> c \<in> set cs \<and> a \<in> set as"
  by (auto simp: pairs_of_def)

lemma clazz_loop_grows:
  "registered (fst (register_clazz_loop True m as vs cs)) c a \<Longrightarrow>
   registered vs c a \<or> (c \<in> set cs \<and> a \<in> set as)"
proof (induction cs arbitrary: vs)
  case Nil
  then show ?case by simp
next
  case (Cons d cs)
  let ?t0 = "case vs d of None \<Rightarrow> Map.empty | Some t \<Rightarrow> t"
  obtain t r where loop: "register_attr_loop True m d ?t0 as = (t, r)"
    by (cases "register_attr_loop True m d ?t0 as")
  have orig: "registered (vs(d \<mapsto> t)) c a \<Longrightarrow> registered vs c a \<or> (c = d \<and> a \<in> set as)"
  proof -
    assume reg: "registered (vs(d \<mapsto> t)) c a"
    show ?thesis
    proof (cases "c = d")
      case False
      with reg show ?thesis by (simp add: registered_def)
    next
      case True
      with reg have "t a \<noteq> None" by (simp add: registered_def)
      with loop have "fst (register_attr_loop True m d ?t0 as) a \<noteq> None" by simp
      then have "?t0 a \<noteq> None \<or> a \<in> set as" by (rule attr_loop_grows)
      with True show ?thesis by (auto simp: registered_def split: option.splits)
    qed
  qed
  show ?case
  proof (cases r)
    case None
    with loop have step: "register_clazz_loop True m as vs (d # cs) =
        register_clazz_loop True m as (vs(d \<mapsto> t)) cs" by simp
    from Cons.prems have "registered (fst (register_clazz_loop True m as (vs(d \<mapsto> t)) cs)) c a"
      unfolding step .
    then have "registered (vs(d \<mapsto> t)) c a \<or> (c \<in> set cs \<and> a \<in> set as)"
      by (rule Cons.IH)
    with orig show ?thesis by auto
  next
    case (Some e)
    with loop have step: "register_clazz_loop True m as vs (d # cs) = (vs(d \<mapsto> t), Some e)"
      by simp
    from Cons.prems have "registered (vs(d \<mapsto> t)) c a" unfolding step fst_conv .
    with orig show ?thesis by auto
  qed
qed

lemma clazz_loop_error_clash:
  "snd (register_clazz_loop True m as vs cs) = Some e \<Longrightarrow>
   \<exists>c' a'. (c', a') \<in> set (pairs_of cs as) \<and> e = AssertionError (oops_message c' a') \<and>
     (registered vs c' a' \<or> 1 < count_list (pairs_of cs as) (c', a'))"
proof (induction cs arbitrary: vs)
  case Nil
  then show ?case by simp
next
  case (Cons d cs)
  let ?t0 = "case vs d of None \<Rightarrow> Map.empty | Some t \<Rightarrow> t"
  obtain t r where loop: "register_attr_loop True m d ?t0 as = (t, r)"
    by (cases "register_attr_loop True m d ?t0 as")
  show ?case
  proof (cases r)
    case (Some e')
    with loop have step: "register_clazz_loop True m as vs (d # cs) = (vs(d \<mapsto> t), Some e')"
      by simp
    with Cons.prems have "e' = e" by simp
    with loop Some have "snd (register_attr_loop True m d ?t0 as) = Some e" by simp
    then obtain a' where a': "a' \<in> set as" "e = AssertionError (oops_message d a')"
      "?t0 a' \<noteq> None \<or> 1 < count_list as a'"
      using attr_loop_error_clash by blast
    have "registered vs d a' \<or> 1 < count_list (pairs_of (d # cs) as) (d, a')"
    proof (cases "?t0 a' \<noteq> None")
      case True
      then show ?thesis by (auto simp: registered_def split: option.splits)
    next
      case False
      with a'(3) have "1 < count_list as a'" by simp
      then show ?thesis by (simp add: pairs_of_Cons count_list_Pair)
    qed
    moreover have "(d, a') \<in> set (pairs_of (d # cs) as)" using a'(1) by (simp add: in_pairs_of)
    ultimately show ?thesis using a'(2) by blast
  next
    case None
    with loop have step: "register_clazz_loop True m as vs (d # cs) =
        register_clazz_loop True m as (vs(d \<mapsto> t)) cs" by simp
    with Cons.prems have "snd (register_clazz_loop True m as (vs(d \<mapsto> t)) cs) = Some e" by simp
    from Cons.IH [OF this] obtain c' a' where ca: "(c', a') \<in> set (pairs_of cs as)"
      "e = AssertionError (oops_message c' a')"
      "registered (vs(d \<mapsto> t)) c' a' \<or> 1 < count_list (pairs_of cs as) (c', a')" by blast
    have "registered vs c' a' \<or> 1 < count_list (pairs_of (d # cs) as) (c', a')"
    proof (cases "1 < count_list (pairs_of cs as) (c', a')")
      case True
      then show ?thesis by (simp add: pairs_of_Cons)
    next
      case False
      with ca(3) have reg: "registered (vs(d \<mapsto> t)) c' a'" by simp
      show ?thesis
      proof (cases "c' = d")
        case False
        with reg show ?thesis by (simp add: registered_def)
      next
        case True
        with reg have "t a' \<noteq> None" by (simp add: registered_def)
        with loop have "fst (register_attr_loop True m d ?t0 as) a' \<noteq> None" by simp
        then have "?t0 a' \<noteq> None \<or> a' \<in> set as" by (rule attr_loop_grows)
        then show ?thesis
        proof
          assume "?t0 a' \<noteq> None"
          with True show ?thesis by (auto simp: registered_def split: option.splits)
        next
          assume "a' \<in> set as"
          then have "0 < count_list as a'" by (rule count_list_pos)
          moreover have "0 < count_list (pairs_of cs as) (c', a')"
            using ca(1) by (rule count_list_pos)
          ultimately show ?thesis using True by (simp add: pairs_of_Cons count_list_Pair)
        qed
      qed
    qed
    moreover have "(c', a') \<in> set (pairs_of (d # cs) as)" using ca(1) by (simp add: pairs_of_Cons)
    ultimately show ?thesis using ca(2) by blast
  qed
qed

lemma requested_Cons_pairs:
  "requested (ca # req) = pairs_of (clazzes_tuple (fst ca)) (attrs_tuple (snd ca)) @ requested req"
  by (simp add: requested_def pairs_of_def)

lemma wrapper_loop_error_clash:
  "snd (wrapper_loop True m vs req) = Some e \<Longrightarrow>
   \<exists>c' a'. (c', a') \<in> set (requested req) \<and> e = AssertionError (oops_message c' a') \<and>
     (registered vs c' a' \<or> 1 < count_list (requested req) (c', a'))"
proof (induction req arbitrary: vs)
  case Nil
  then show ?case by simp
next
  case (Cons ca req)
  let ?as = "attrs_tuple (snd ca)" and ?cs = "clazzes_tuple (fst ca)"
  obtain vs1 r where loop: "register_clazz_loop True m ?as vs ?cs = (vs1, r)"
    by (cases "register_clazz_loop True m ?as vs ?cs")
  show ?case
  proof (cases r)
    case (Some e')
    with loop have "wrapper_loop True m vs (ca # req) = (vs1, Some e')" by simp
    with Cons.prems have "e' = e" by simp
    with loop Some have "snd (register_clazz_loop True m ?as vs ?cs) = Some e" by simp
    from clazz_loop_error_clash [OF this] obtain c' a' where ca': "(c', a') \<in> set (pairs_of ?cs ?as)"
      "e = AssertionError (oops_message c' a')"
      "registered vs c' a' \<or> 1 < count_list (pairs_of ?cs ?as) (c', a')" by blast
    then have "registered vs c' a' \<or> 1 < count_list (requested (ca # req)) (c', a')"
      by (auto simp: requested_Cons_pairs)
    with ca'(1,2) show ?thesis by (auto simp: requested_Cons_pairs)
  next
    case None
    with loop have step: "wrapper_loop True m vs (ca # req) = wrapper_loop True m vs1 req" by simp
    with Cons.prems have "snd (wrapper_loop True m vs1 req) = Some e" by simp
    from Cons.IH [OF this] obtain c' a' where ca': "(c', a') \<in> set (requested req)"
      "e = AssertionError (oops_message c' a')"
      "registered vs1 c' a' \<or> 1 < count_list (requested req) (c', a')" by blast
    have "registered vs c' a' \<or> 1 < count_list (requested (ca # req)) (c', a')"
    proof (cases "1 < count_list (requested req) (c', a')")
      case True
      then show ?thesis by (simp add: requested_Cons_pairs)
    next
      case False
      with ca'(3) have "registered vs1 c' a'" by simp
      with loop have "registered (fst (register_clazz_loop True m ?as vs ?cs)) c' a'" by simp
      then have "registered vs c' a' \<or> (c' \<in> set ?cs \<and> a' \<in> set ?as)" by (rule clazz_loop_grows)
      then show ?thesis
      proof
        assume "registered vs c' a'"
        then show ?thesis by simp
      next
        assume "c' \<in> set ?cs \<and> a' \<in> set ?as"
        then have "(c', a') \<in> set (pairs_of ?cs ?as)" by (simp add: in_pairs_of)
        then have "0 < count_list (pairs_of ?cs ?as) (c', a')" by (rule count_list_pos)
        moreover have "0 < count_list (requested req) (c', a')" using ca'(1) by (rule count_list_pos)
        ultimately show ?thesis by (simp add: requested_Cons_pairs)
      qed
    qed
    with ca'(1,2) show ?thesis by (auto simp: requested_Cons_pairs)
  qed
qed



text \<open>
  For a node none of whose field names is empty, object traversal is
  the loop body run on exactly the names of the instance dictionary that do not begin
  with an underscore, in sorted order: the list is sorted, holds those names and no
  others, holds each once when the dictionary's keys are distinct, and is the same for
  every order in which the fields were declared.
\<close>

lemma visitObject_public_fields_sorted:
  assumes "inst_dict obj = Some d" and "[] \<notin> fst ` set d"
  shows "visitObject self obj =
           sequence (map (visit_field self obj (visitorsFor (env self) (cls self) obj)
                            (visitorsFor (env self) (cls self) obj (Some ''*'')))
                       (public_fields d)) \<and>
         sorted (public_fields d) \<and>
         set (public_fields d) = {key \<in> fst ` set d. \<not> is_private key} \<and>
         (distinct (map fst d) \<longrightarrow> distinct (public_fields d)) \<and>
         (\<forall>d'. mset d' = mset d \<longrightarrow> public_fields d' = public_fields d)"
proof (intro conjI allI impI)
  show "visitObject self obj =
           sequence (map (visit_field self obj (visitorsFor (env self) (cls self) obj)
                            (visitorsFor (env self) (cls self) obj (Some ''*'')))
                       (public_fields d))"
    using assms by (rule visitObject_closed)
  show "sorted (public_fields d)" by (rule public_fields_sorted)
  show "set (public_fields d) = {key \<in> fst ` set d. \<not> is_private key}"
    by (rule public_fields_set)
  show "distinct (public_fields d)" if "distinct (map fst d)"
    using that by (rule public_fields_distinct)
  show "public_fields d' = public_fields d" if "mset d' = mset d" for d'
    using that by (rule public_fields_perm)
qed

lemma and_then_assoc: "and_then (and_then a b) c = and_then a (and_then b c)"
  by (cases a; cases b) (auto simp: and_then_def split: option.splits)

lemma visitObject_loop_append:
  "visitObject_loop self obj vs dflt (ks1 @ ks2) =
     and_then (visitObject_loop self obj vs dflt ks1) (visitObject_loop self obj vs dflt ks2)"
proof (induction ks1)
  case Nil
  show ?case by simp
next
  case (Cons key ks1)
  show ?case
  proof (cases key)
    case Nil
    then show ?thesis by (simp add: visitObject_loop.simps)
  next
    case (Cons c cs)
    show ?thesis
    proof (cases "c = CHR ''_''")
      case True
      with Cons Cons.IH show ?thesis by (simp add: visitObject_loop_private)
    next
      case False
      with Cons Cons.IH show ?thesis by (simp add: visitObject_loop_public and_then_assoc)
    qed
  qed
qed

section \<open>The claims\<close>

text \<open>
  C5. Object traversal is to enumerate the fields whose names do not begin with an
  underscore, in sorted order. The test of line 83 is \<^verbatim>\<open>key[0] == "_"\<close>, which raises
  \<^verbatim>\<open>IndexError\<close> on the empty name: a node with a field named by the empty string
  (\<^verbatim>\<open>setattr(obj, "", 2)\<close>) has its traversal end at the first key of the sorted list,
  and neither that field nor the public field \<^verbatim>\<open>a\<close> is visited. The exception goes up:
  a node that holds such a node in its field \<^verbatim>\<open>a\<close> does not get its field \<^verbatim>\<open>b\<close> visited
  either.
\<close>

theorem visitObject_empty_name_raises:
  "inst_dict ex_empty_name = Some [(''a'', py_int 1), ('''', py_int 2)] \<and>
   visitObject (ex_engine False py_None) ex_empty_name = ([], Some IndexError) \<and>
   visitObject (ex_engine False py_None) ex_nested = ([], Some IndexError)"
  by (simp add: ex_empty_name_def ex_nested_def py_object_def py_int_def ex_engine_def ex_env_def
      visitorsFor_def vars_def getattr_def visit.simps visit_dispatch.simps visitObject.simps
      visitObject_loop.simps and_then_def)

text \<open>
  C7. The diagnostic carrier is built from a message and a location; the location is a
  required argument that may be \<^verbatim>\<open>None\<close>. It renders as the location, a colon and a
  space, and the message when the location is a non-empty string, and as the message
  alone when the location is \<^verbatim>\<open>None\<close> or empty.
\<close>

theorem str_OpenTypeLibError_rendering:
  "call_OpenTypeLibError msg (Some l) = Inr (init_OpenTypeLibError msg l) \<and>
   (loc \<noteq> [] \<longrightarrow>
      str_OpenTypeLibError (init_OpenTypeLibError msg (Some loc)) = loc @ '': '' @ msg) \<and>
   str_OpenTypeLibError (init_OpenTypeLibError msg None) = msg \<and>
   str_OpenTypeLibError (init_OpenTypeLibError msg (Some [])) = msg"
  by (simp add: call_OpenTypeLibError_def str_OpenTypeLibError_def init_OpenTypeLibError_def
      truthy_def str_selector_def)

theorem str_OpenTypeLibError_rendering_witness:
  "map_sum id str_OpenTypeLibError (call_OpenTypeLibError ''bad glyph'' (Some (Some ''3:4''))) =
     Inr ''3:4: bad glyph'' \<and>
   map_sum id str_OpenTypeLibError (call_OpenTypeLibError ''bad glyph'' (Some None)) =
     Inr ''bad glyph''"
  using str_OpenTypeLibError_rendering
      [where msg = "''bad glyph''" and l = "Some ''3:4''" and loc = "''3:4''"]
    str_OpenTypeLibError_rendering
      [where msg = "''bad glyph''" and l = None and loc = "''3:4''"]
  by simp

text \<open>A call that passes no location raises and renders nothing.\<close>

theorem OpenTypeLibError_location_required_counterexample:
  "call_OpenTypeLibError ''bad glyph'' None = Inl TypeError"
  by (simp add: call_OpenTypeLibError_def)

text \<open>
  C1. When the whole-node handler found for a node returns \<^verbatim>\<open>False\<close>, \<^verbatim>\<open>visit\<close> is that
  one call and nothing else: no object, list, dict or leaf traversal. When the handler
  chosen for a public field returns \<^verbatim>\<open>False\<close>, the loop of \<^verbatim>\<open>visitObject\<close> makes that
  one call and goes on with the remaining keys: the field's value is not visited.
\<close>

theorem stop_signal_prevents_descent:
  "(visitorsFor (env self) (cls self) obj None = Some f \<longrightarrow>
      call_node self (fid f) obj = py_bool False \<longrightarrow>
      visit self obj = ([NodeCall f obj], None)) \<and>
   (c \<noteq> CHR ''_'' \<longrightarrow> getattr obj (c # cs) = Inr v \<longrightarrow>
      (case visitors (Some (c # cs)) of Some g \<Rightarrow> Some g | None \<Rightarrow> defaultVisitor) = Some f \<longrightarrow>
      call_attr self (fid f) obj (c # cs) v = py_bool False \<longrightarrow>
      visitObject_loop self obj visitors defaultVisitor ((c # cs) # keys) =
        emit (AttrCall f obj (c # cs) v) (visitObject_loop self obj visitors defaultVisitor keys))"
  by (simp add: visit.simps visitObject_loop.simps stops_def eq_False_def py_bool_def emit_def)

theorem stop_signal_prevents_descent_witness:
  "visit (ex_engine False (py_bool False)) ex_T = ([NodeCall (Handler 1 ''visit'') ex_T], None) \<and>
   visitObject_loop (ex_engine False (py_bool False)) ex_U
       [Some ''x'' \<mapsto> Handler 2 ''visit''] None [''x'', ''y''] =
     ([AttrCall (Handler 2 ''visit'') ex_U ''x'' (py_int 4), Leaf (py_int 3)], None)"
  using stop_signal_prevents_descent
    [where self = "ex_engine False (py_bool False)" and obj = ex_T and f = "Handler 1 ''visit''"]
    stop_signal_prevents_descent
    [where self = "ex_engine False (py_bool False)" and obj = ex_U and f = "Handler 2 ''visit''" and c = "CHR ''x''"
       and cs = "[]" and v = "py_int 4" and visitors = "[Some ''x'' \<mapsto> Handler 2 ''visit'']"
       and defaultVisitor = None and keys = "[''y'']"]
  by (simp add: ex_T_def ex_U_def py_object_def ex_engine_def ex_env_def visitorsFor_def
      getattr_def py_int_def py_bool_def stops_def eq_False_def is_None_def emit_def
      visit.simps visit_dispatch.simps visitObject_loop.simps visitLeaf_def and_then_def)

text \<open>
  C2. When the handler returns \<^verbatim>\<open>None\<close>, what follows the call is decided by
  \<^verbatim>\<open>defaultStop\<close> alone: nothing when it is set, and the default traversal of the node
  (the recursion into the field's value) when it is not.
\<close>

theorem no_signal_follows_defaultStop:
  "(visitorsFor (env self) (cls self) obj None = Some f \<longrightarrow>
      call_node self (fid f) obj = py_None \<longrightarrow>
      visit self obj =
        emit (NodeCall f obj) (if defaultStop self then ([], None) else visit_dispatch self obj)) \<and>
   (c \<noteq> CHR ''_'' \<longrightarrow> getattr obj (c # cs) = Inr v \<longrightarrow>
      (case visitors (Some (c # cs)) of Some g \<Rightarrow> Some g | None \<Rightarrow> defaultVisitor) = Some f \<longrightarrow>
      call_attr self (fid f) obj (c # cs) v = py_None \<longrightarrow>
      visitObject_loop self obj visitors defaultVisitor ((c # cs) # keys) =
        emit (AttrCall f obj (c # cs) v)
          (if defaultStop self then visitObject_loop self obj visitors defaultVisitor keys
           else and_then (visit self v)
                  (visitObject_loop self obj visitors defaultVisitor keys)))"
  by (simp add: visit.simps visitObject_loop.simps stops_def eq_False_def is_None_def py_None_def)

theorem no_signal_follows_defaultStop_witness:
  "visit (ex_engine False py_None) ex_T =
     ([NodeCall (Handler 1 ''visit'') ex_T, Leaf (py_int 2), Leaf (py_int 1)], None) \<and>
   visit (ex_engine True py_None) ex_T = ([NodeCall (Handler 1 ''visit'') ex_T], None) \<and>
   visitObject_loop (ex_engine False py_None) ex_U
       [Some ''x'' \<mapsto> Handler 2 ''visit''] None [''x'', ''y''] =
     ([AttrCall (Handler 2 ''visit'') ex_U ''x'' (py_int 4), Leaf (py_int 4), Leaf (py_int 3)], None) \<and>
   visitObject_loop (ex_engine True py_None) ex_U
       [Some ''x'' \<mapsto> Handler 2 ''visit''] None [''x'', ''y''] =
     ([AttrCall (Handler 2 ''visit'') ex_U ''x'' (py_int 4), Leaf (py_int 3)], None)"
  using no_signal_follows_defaultStop
    [where self = "ex_engine False py_None" and obj = ex_T and f = "Handler 1 ''visit''"]
    no_signal_follows_defaultStop
    [where self = "ex_engine False py_None" and obj = ex_U and f = "Handler 2 ''visit''" and c = "CHR ''x''"
       and cs = "[]" and v = "py_int 4" and visitors = "[Some ''x'' \<mapsto> Handler 2 ''visit'']"
       and defaultVisitor = None and keys = "[''y'']"]
    no_signal_follows_defaultStop
    [where self = "ex_engine True py_None" and obj = ex_T and f = "Handler 1 ''visit''"]
    no_signal_follows_defaultStop
    [where self = "ex_engine True py_None" and obj = ex_U and f = "Handler 2 ''visit''" and c = "CHR ''x''"
       and cs = "[]" and v = "py_int 4" and visitors = "[Some ''x'' \<mapsto> Handler 2 ''visit'']"
       and defaultVisitor = None and keys = "[''y'']"]
  by (simp add: ex_T_def ex_U_def py_object_def ex_engine_def ex_env_def visitorsFor_def
      getattr_def vars_def py_int_def py_None_def stops_def eq_False_def is_None_def emit_def
      visit.simps visit_dispatch.simps visitObject.simps visitObject_loop.simps visitLeaf_def
      and_then_def)

text \<open>
  C9. The stop test is \<^verbatim>\<open>ret == False\<close>: every return value equal to \<^verbatim>\<open>False\<close>, such as
  the integer zero and the float zero, stops as \<^verbatim>\<open>False\<close> does, for a node and for a
  field, whatever \<^verbatim>\<open>defaultStop\<close> is.
\<close>

theorem equal_to_False_stops:
  "eq_False (py_bool False) \<and> eq_False (py_int 0) \<and> eq_False (py_float 0) \<and>
   (visitorsFor (env self) (cls self) obj None = Some f \<longrightarrow>
      eq_False (call_node self (fid f) obj) \<longrightarrow>
      visit self obj = ([NodeCall f obj], None)) \<and>
   (c \<noteq> CHR ''_'' \<longrightarrow> getattr obj (c # cs) = Inr v \<longrightarrow>
      (case visitors (Some (c # cs)) of Some g \<Rightarrow> Some g | None \<Rightarrow> defaultVisitor) = Some f \<longrightarrow>
      eq_False (call_attr self (fid f) obj (c # cs) v) \<longrightarrow>
      visitObject_loop self obj visitors defaultVisitor ((c # cs) # keys) =
        emit (AttrCall f obj (c # cs) v) (visitObject_loop self obj visitors defaultVisitor keys))"
  by (simp add: visit.simps visitObject_loop.simps stops_def eq_False_def py_bool_def py_int_def
      py_float_def emit_def)

theorem equal_to_False_stops_witness:
  "visit (ex_engine False (py_int 0)) ex_T = ([NodeCall (Handler 1 ''visit'') ex_T], None) \<and>
   visitObject_loop (ex_engine False (py_float 0)) ex_U
       [Some ''x'' \<mapsto> Handler 2 ''visit''] None [''x'', ''y''] =
     ([AttrCall (Handler 2 ''visit'') ex_U ''x'' (py_int 4), Leaf (py_int 3)], None)"
  using equal_to_False_stops
    [where self = "ex_engine False (py_int 0)" and obj = ex_T and f = "Handler 1 ''visit''"]
    equal_to_False_stops
    [where self = "ex_engine False (py_int 0)" and obj = ex_U and f = "Handler 2 ''visit''" and c = "CHR ''x''"
       and cs = "[]" and v = "py_int 4" and visitors = "[Some ''x'' \<mapsto> Handler 2 ''visit'']"
       and defaultVisitor = None and keys = "[''y'']"]
    equal_to_False_stops
    [where self = "ex_engine False (py_float 0)" and obj = ex_T and f = "Handler 1 ''visit''"]
    equal_to_False_stops
    [where self = "ex_engine False (py_float 0)" and obj = ex_U and f = "Handler 2 ''visit''" and c = "CHR ''x''"
       and cs = "[]" and v = "py_int 4" and visitors = "[Some ''x'' \<mapsto> Handler 2 ''visit'']"
       and defaultVisitor = None and keys = "[''y'']"]
  by (simp add: ex_T_def ex_U_def py_object_def ex_engine_def ex_env_def visitorsFor_def
      getattr_def py_int_def py_float_def stops_def eq_False_def is_None_def emit_def
      visit.simps visit_dispatch.simps visitObject_loop.simps visitLeaf_def and_then_def)

text \<open>
  C8. \<^verbatim>\<open>visitObject\<close> resolves the handler set for the node's exact runtime type, and
  when its loop over the sorted keys comes to a public field it calls the handler that
  set has under the field's name if there is one, otherwise the handler it has under
  \<^verbatim>\<open>"*"\<close> if there is one, and otherwise calls no handler and visits the field's value.
  The fields before and after are the loop on the keys before and after.
\<close>

theorem field_handler_precedence:
  "visitorsFor (env self) (cls self) obj =
     visitorsFor_loop (env self) (type_of obj) (mro (env self (cls self))) \<and>
   (inst_dict obj = Some d \<longrightarrow> sort (map fst d) = ks1 @ (c # cs) # ks2 \<longrightarrow>
    c \<noteq> CHR ''_'' \<longrightarrow> getattr obj (c # cs) = Inr v \<longrightarrow>
    visitObject self obj =
      and_then
        (visitObject_loop self obj (visitorsFor (env self) (cls self) obj)
           (visitorsFor (env self) (cls self) obj (Some ''*'')) ks1)
        (and_then
           (case visitorsFor (env self) (cls self) obj (Some (c # cs)) of
              Some f \<Rightarrow>
                emit (AttrCall f obj (c # cs) v)
                  (if stops self (call_attr self (fid f) obj (c # cs) v) then ([], None)
                   else visit self v)
            | None \<Rightarrow>
                (case visitorsFor (env self) (cls self) obj (Some ''*'') of
                   Some g \<Rightarrow>
                     emit (AttrCall g obj (c # cs) v)
                       (if stops self (call_attr self (fid g) obj (c # cs) v) then ([], None)
                        else visit self v)
                 | None \<Rightarrow> visit self v))
           (visitObject_loop self obj (visitorsFor (env self) (cls self) obj)
              (visitorsFor (env self) (cls self) obj (Some ''*'')) ks2)))"
  by (simp add: visitorsFor_def visitObject.simps vars_def visitObject_loop_append
      visitObject_loop_public visit_field_def split: option.splits)

text \<open>
  The engine of class \<^verbatim>\<open>B\<close> has a handler for the field \<^verbatim>\<open>x\<close> of \<^verbatim>\<open>U\<close> only: on a
  \<^verbatim>\<open>U\<close> with fields \<^verbatim>\<open>x\<close> and \<^verbatim>\<open>y\<close> it calls the handler for \<^verbatim>\<open>x\<close> (which returns
  \<^verbatim>\<open>True\<close>, so \<^verbatim>\<open>x\<close> is visited too) and visits \<^verbatim>\<open>y\<close> with no call. The engine of
  class \<^verbatim>\<open>W\<close> has a wildcard handler as well: it calls the handler of \<^verbatim>\<open>x\<close> for \<^verbatim>\<open>x\<close>
  and the wildcard handler for \<^verbatim>\<open>y\<close>.
\<close>

theorem field_handler_precedence_witness:
  "visitObject (ex_engine False (py_bool True)) ex_U =
     ([AttrCall (Handler 2 ''visit'') ex_U ''x'' (py_int 4), Leaf (py_int 4), Leaf (py_int 3)],
      None) \<and>
   visitObject ((ex_engine False (py_bool True))\<lparr>cls := ''W''\<rparr>) ex_U =
     ([AttrCall (Handler 2 ''visit'') ex_U ''x'' (py_int 4), Leaf (py_int 4),
       AttrCall (Handler 3 ''visit'') ex_U ''y'' (py_int 3), Leaf (py_int 3)], None)"
proof -
  have b: "visitObject (ex_engine False (py_bool True)) ex_U =
     ([AttrCall (Handler 2 ''visit'') ex_U ''x'' (py_int 4), Leaf (py_int 4), Leaf (py_int 3)],
      None)"
    using field_handler_precedence
      [where self = "ex_engine False (py_bool True)" and obj = ex_U
        and d = "[(''y'', py_int 3), (''x'', py_int 4), (''_p'', py_int 5)]"
        and ?ks1.0 = "[''_p'', ''x'']" and c = "CHR ''y''" and cs = "[]" and ?ks2.0 = "[]"
        and v = "py_int 3"]
    by (simp add: ex_U_def py_object_def ex_engine_def ex_env_def visitorsFor_def
      getattr_def py_int_def py_bool_def stops_def eq_False_def is_None_def emit_def
      visit.simps visit_dispatch.simps visitObject_loop.simps visitLeaf_def and_then_def)
  have w: "visitObject ((ex_engine False (py_bool True))\<lparr>cls := ''W''\<rparr>) ex_U =
     ([AttrCall (Handler 2 ''visit'') ex_U ''x'' (py_int 4), Leaf (py_int 4),
       AttrCall (Handler 3 ''visit'') ex_U ''y'' (py_int 3), Leaf (py_int 3)], None)"
    using field_handler_precedence
      [where self = "(ex_engine False (py_bool True))\<lparr>cls := ''W''\<rparr>" and obj = ex_U
        and d = "[(''y'', py_int 3), (''x'', py_int 4), (''_p'', py_int 5)]"
        and ?ks1.0 = "[''_p'', ''x'']" and c = "CHR ''y''" and cs = "[]" and ?ks2.0 = "[]"
        and v = "py_int 3"]
    by (simp add: ex_U_def py_object_def ex_engine_def ex_env_def visitorsFor_def
      getattr_def py_int_def py_bool_def stops_def eq_False_def is_None_def emit_def
      visit.simps visit_dispatch.simps visitObject_loop.simps visitLeaf_def and_then_def)
  from b w show ?thesis by (rule conjI)
qed

text \<open>
  C6. With no whole-node handler, \<^verbatim>\<open>visit\<close> is the shape test, and the shape test takes
  exactly one branch: a value with an attribute dictionary that is no member of an
  enumeration is traversed as an object; otherwise a list is the visits of its elements
  in order; otherwise a dict is the visits of its values in iteration order (the keys
  are not visited); and anything else, a member of an enumeration included, goes to the
  leaf hook, and that is all.
\<close>

theorem visit_classifies_shape:
  "(visitorsFor (env self) (cls self) obj None = None \<longrightarrow>
      visit self obj = visit_dispatch self obj) \<and>
   visit_dispatch self obj =
     (if inst_dict obj \<noteq> None \<and> \<not> is_enum obj then visitObject self obj
      else case payload obj of
             PList xs \<Rightarrow> sequence (map (visit self) xs)
           | PDict kvs \<Rightarrow> sequence (map (\<lambda>kv. visit self (snd kv)) kvs)
           | _ \<Rightarrow> ([Leaf obj], None))"
  by (simp add: visit.simps visit_dispatch.simps visitList_sequence visitDict_sequence
      visitLeaf_def split: payload.splits)

theorem visit_classifies_shape_witness:
  "visit (ex_engine False py_None) ex_list_of_dicts = ([Leaf (py_int 1), Leaf (py_int 2)], None) \<and>
   visit (ex_engine False py_None) ex_enum = ([Leaf ex_enum], None) \<and>
   visit (ex_engine False py_None) ex_list_subclass = ([Leaf (py_int 7)], None)"
  using visit_classifies_shape [where self = "ex_engine False py_None" and obj = ex_list_of_dicts]
    visit_classifies_shape [where self = "ex_engine False py_None" and obj = ex_enum]
    visit_classifies_shape [where self = "ex_engine False py_None" and obj = ex_list_subclass]
  by (simp add: ex_list_of_dicts_def ex_enum_def ex_list_subclass_def py_list_def py_dict_def
      py_str_def py_int_def ex_engine_def ex_env_def visitorsFor_def vars_def getattr_def
      visit.simps visit_dispatch.simps visitObject.simps visitObject_loop.simps visitLeaf_def
      and_then_def)

text \<open>
  C4. With assertions enabled: once a registration in an engine class has gone through,
  a registration in the same class that asks for one of its (node type, selector) pairs
  again raises the \<^verbatim>\<open>AssertionError\<close>, and its message names the class and the
  selector of a pair that conflicts: one that the class's table already has, or one the
  request itself asks for twice. Asked for the one pair alone, the message names that
  pair. The same pair registered in another engine class (in particular a subclass)
  that has no entry of its own for it raises nothing, is written to that class's own
  table, and leaves the first class's table as it was.
\<close>

theorem duplicate_registration_raises:
  assumes "celf \<noteq> ''Visitor''" and "fname m2 = ''visit''"
    and first: "register_impl True ce celf req1 m1 = (ce1, None)"
    and in1: "(T, f) \<in> set (requested req1)" and in2: "(T, f) \<in> set (requested req2)"
    and sub: "sub \<noteq> celf" "sub \<noteq> ''Visitor''"
    and fresh: "\<forall>vs. own_visitors (ce1 sub) = Some vs \<longrightarrow> \<not> registered vs T f"
  shows "(\<exists>vs1 c a. own_visitors (ce1 celf) = Some vs1 \<and> (c, a) \<in> set (requested req2) \<and>
            (registered vs1 c a \<or> 1 < count_list (requested req2) (c, a)) \<and>
            snd (register_impl True ce1 celf req2 m2) = Some (AssertionError (oops_message c a))) \<and>
         snd (register_impl True ce1 celf [(Clazz T, Attrs [f])] m2) =
           Some (AssertionError (oops_message T f)) \<and>
         snd (register_impl True ce1 sub [(Clazz T, Attrs [f])] m2) = None \<and>
         (\<exists>vs t. own_visitors (fst (register_impl True ce1 sub [(Clazz T, Attrs [f])] m2) sub) = Some vs \<and>
            vs T = Some t \<and> t f = Some m2) \<and>
         own_visitors (fst (register_impl True ce1 sub [(Clazz T, Attrs [f])] m2) celf) =
           own_visitors (ce1 celf)"
proof -
  from register_impl_success [OF first]
  obtain vs0 vs1 where w: "wrapper_loop True m1 vs0 req1 = (vs1, None)"
    and own: "own_visitors (ce1 celf) = Some vs1" by blast
  have reg: "registered vs1 T f" using w in1 by (rule wrapper_loop_success)
  have again: "\<And>req. snd (register_impl True ce1 celf req m2) = snd (wrapper_loop True m2 vs1 req)"
    using assms(1,2) own by (rule register_impl_again)
  have "\<exists>c a. (c, a) \<in> set (requested req2) \<and>
            snd (wrapper_loop True m2 vs1 req2) = Some (AssertionError (oops_message c a))"
    using in2 reg by (rule wrapper_loop_conflict)
  then obtain e where "snd (wrapper_loop True m2 vs1 req2) = Some e" by blast
  from wrapper_loop_error_clash [OF this] this
  have "\<exists>c a. (c, a) \<in> set (requested req2) \<and>
            (registered vs1 c a \<or> 1 < count_list (requested req2) (c, a)) \<and>
            snd (wrapper_loop True m2 vs1 req2) = Some (AssertionError (oops_message c a))"
    by auto
  with own have a: "\<exists>vs1 c a. own_visitors (ce1 celf) = Some vs1 \<and>
            (c, a) \<in> set (requested req2) \<and>
            (registered vs1 c a \<or> 1 < count_list (requested req2) (c, a)) \<and>
            snd (register_impl True ce1 celf req2 m2) = Some (AssertionError (oops_message c a))"
    unfolding again by blast
  have "(T, f) \<in> set (requested [(Clazz T, Attrs [f])])" by (simp add: requested_def)
  then have "\<exists>c a. (c, a) \<in> set (requested [(Clazz T, Attrs [f])]) \<and>
            snd (wrapper_loop True m2 vs1 [(Clazz T, Attrs [f])]) = Some (AssertionError (oops_message c a))"
    using reg by (rule wrapper_loop_conflict)
  then have b: "snd (register_impl True ce1 celf [(Clazz T, Attrs [f])] m2) =
           Some (AssertionError (oops_message T f))"
    unfolding again by (simp add: requested_def)
  from register_impl_fresh_pair [where ce = ce1 and celf = sub and m = m2 and T = T and f = f]
    sub(2) assms(2) fresh
  obtain vs t where r: "register_impl True ce1 sub [(Clazz T, Attrs [f])] m2 =
           (ce1(sub := (ce1 sub)\<lparr>own_visitors := Some (vs(T \<mapsto> t(f \<mapsto> m2)))\<rparr>), None)"
    by blast
  have c: "snd (register_impl True ce1 sub [(Clazz T, Attrs [f])] m2) = None"
    unfolding r by simp
  have d: "\<exists>vs t. own_visitors (fst (register_impl True ce1 sub [(Clazz T, Attrs [f])] m2) sub) = Some vs \<and>
            vs T = Some t \<and> t f = Some m2"
    unfolding r by simp
  have e: "own_visitors (fst (register_impl True ce1 sub [(Clazz T, Attrs [f])] m2) celf) =
           own_visitors (ce1 celf)"
    unfolding r using sub(1) by simp
  from a b c d e show ?thesis by blast
qed

text \<open>
  \<^verbatim>\<open>A.register(T)\<close> once goes through; a second time in \<^verbatim>\<open>A\<close> it raises; in the
  subclass \<^verbatim>\<open>B\<close> it goes through.
\<close>

theorem duplicate_registration_raises_witness:
  "snd (register True empty_env ''A'' (Clazz ''T'') (Handler 1 ''visit'')) = None \<and>
   snd (register True ex_registered_env ''A'' (Clazz ''T'') (Handler 2 ''visit'')) =
     Some (AssertionError (oops_message ''T'' None)) \<and>
   snd (register True ex_registered_env ''B'' (Clazz ''T'') (Handler 2 ''visit'')) = None \<and>
   snd (register_impl True empty_env ''A'' [(Clazz ''T'', Attrs [None])] (Handler 1 ''visit'')) = None \<and>
   snd (register_impl True ex_registered_env ''A'' [(Clazz ''T'', Attrs [None])] (Handler 2 ''visit'')) =
     Some (AssertionError (oops_message ''T'' None)) \<and>
   snd (register_impl True ex_registered_env ''B'' [(Clazz ''T'', Attrs [None])] (Handler 2 ''visit'')) = None"
proof -
  have first: "register_impl True empty_env ''A'' [(Clazz ''T'', Attrs [None])] (Handler 1 ''visit'') =
      (ex_registered_env, None)"
    by (simp add: ex_registered_env_def register_impl_def empty_env_def Let_def)
  have fresh: "\<forall>vs. own_visitors (ex_registered_env ''B'') = Some vs \<longrightarrow> \<not> registered vs ''T'' None"
    by (simp add: ex_registered_env_def register_impl_def empty_env_def Let_def)
  have "snd (register_impl True ex_registered_env ''A'' [(Clazz ''T'', Attrs [None])] (Handler 2 ''visit'')) =
     Some (AssertionError (oops_message ''T'' None)) \<and>
   snd (register_impl True ex_registered_env ''B'' [(Clazz ''T'', Attrs [None])] (Handler 2 ''visit'')) = None"
    using duplicate_registration_raises [where celf = "''A''" and ?m2.0 = "Handler 2 ''visit''" and ce = empty_env
        and ?req1.0 = "[(Clazz ''T'', Attrs [None])]" and ?m1.0 = "Handler 1 ''visit''"
        and ?ce1.0 = ex_registered_env and T = "''T''" and f = None
        and ?req2.0 = "[(Clazz ''T'', Attrs [None])]" and sub = "''B''"]
      first fresh
    by (simp add: requested_def)
  moreover have "snd (register True empty_env ''A'' (Clazz ''T'') (Handler 1 ''visit'')) = None"
    by (simp add: register_def register_impl_def empty_env_def Let_def)
  moreover have "snd (register True ex_registered_env ''A'' (Clazz ''T'') (Handler 2 ''visit'')) =
     Some (AssertionError (oops_message ''T'' None))"
    by (simp add: register_def ex_registered_env_def register_impl_def empty_env_def Let_def)
  moreover have "snd (register True ex_registered_env ''B'' (Clazz ''T'') (Handler 2 ''visit'')) = None"
    by (simp add: register_def ex_registered_env_def register_impl_def empty_env_def Let_def)
  ultimately show ?thesis using first by simp
qed

text \<open>
  With assertions off (\<^verbatim>\<open>python -O\<close>) the second \<^verbatim>\<open>A.register(T)\<close> raises nothing and
  replaces the first handler.
\<close>

theorem registration_without_assertions_counterexample:
  "snd (register_impl False ex_registered_env ''A'' [(Clazz ''T'', Attrs [None])]
          (Handler 2 ''visit'')) = None \<and>
   visitorsFor ex_registered_env ''A'' ex_T None = Some (Handler 1 ''visit'') \<and>
   visitorsFor
       (fst (register_impl False ex_registered_env ''A'' [(Clazz ''T'', Attrs [None])]
               (Handler 2 ''visit'')))
       ''A'' ex_T None = Some (Handler 2 ''visit'')"
  by (simp add: ex_registered_env_def register_impl_def empty_env_def Let_def visitorsFor_def
      ex_T_def py_object_def)




text \<open>
  C10. Object traversal enumerates the instance dictionary only. Every call of a field
  handler on the node is for a public name of the instance dictionary, with the value
  attribute lookup gives for it; that value is the instance dictionary's unless the
  class defines a data descriptor of the same name, and is the data descriptor's when
  the class defines one; and, when no name is empty, the
  traversal is the loop body run on the public names of the instance dictionary, so a
  name the class alone defines is never enumerated, dispatched or recursed into.
\<close>

theorem traversal_reads_instance_dictionary:
  assumes "inst_dict obj = Some d"
  shows "(\<forall>f key v. AttrCall f obj key v \<in> set (fst (visitObject self obj)) \<longrightarrow>
            key \<in> fst ` set d \<and> \<not> is_private key \<and> getattr obj key = Inr v) \<and>
         (\<forall>key v. map_of d key = Some v \<longrightarrow>
            (\<forall>w. map_of (class_attrs obj) key \<noteq> Some (DataDescr w)) \<longrightarrow>
            getattr obj key = Inr v) \<and>
         (\<forall>key w. map_of (class_attrs obj) key = Some (DataDescr w) \<longrightarrow>
            getattr obj key = Inr w) \<and>
         ([] \<notin> fst ` set d \<longrightarrow>
            visitObject self obj =
              sequence (map (visit_field self obj (visitorsFor (env self) (cls self) obj)
                               (visitorsFor (env self) (cls self) obj (Some ''*'')))
                          (public_fields d)) \<and>
            set (public_fields d) \<subseteq> fst ` set d)"
proof (intro conjI allI impI)
  fix f key v
  assume "AttrCall f obj key v \<in> set (fst (visitObject self obj))"
  then have "AttrCall f obj key v \<in> set (fst (visitObject_loop self obj
      (visitorsFor (env self) (cls self) obj)
      (visitorsFor (env self) (cls self) obj (Some ''*'')) (sort (map fst d))))"
    using assms by (simp add: visitObject.simps vars_def)
  from visitObject_loop_attr_calls [OF this]
  show "key \<in> fst ` set d" and "\<not> is_private key" and "getattr obj key = Inr v"
    by simp_all
next
  fix key v
  assume "map_of d key = Some v" and "\<forall>w. map_of (class_attrs obj) key \<noteq> Some (DataDescr w)"
  with assms show "getattr obj key = Inr v" by (rule getattr_instance_value)
next
  fix key w
  assume "map_of (class_attrs obj) key = Some (DataDescr w)"
  then show "getattr obj key = Inr w" by (simp add: getattr_def)
next
  assume "[] \<notin> fst ` set d"
  with assms show "visitObject self obj =
              sequence (map (visit_field self obj (visitorsFor (env self) (cls self) obj)
                               (visitorsFor (env self) (cls self) obj (Some ''*'')))
                          (public_fields d))"
    by (rule visitObject_closed)
next
  show "set (public_fields d) \<subseteq> fst ` set d"
    by (auto simp: public_fields_set)
qed

text \<open>
  The class of \<open>ex_class_attrs\<close> defines the public names \<^verbatim>\<open>y\<close> and \<^verbatim>\<open>z\<close>; only the
  field \<^verbatim>\<open>x\<close> is dispatched and visited.
\<close>

theorem traversal_reads_instance_dictionary_witness:
  "visitObject (ex_engine False (py_bool True)) ex_class_attrs =
     ([AttrCall (Handler 2 ''visit'') ex_class_attrs ''x'' (py_int 4), Leaf (py_int 4)], None) \<and>
   getattr ex_class_attrs ''x'' = Inr (py_int 4) \<and>
   getattr ex_shadowed ''x'' = Inr (py_int 2) \<and>
   public_fields [(''x'', py_int 4)] = [''x'']"
proof -
  have d: "inst_dict ex_shadowed = Some [(''x'', py_int 1)]"
    by (simp add: ex_shadowed_def py_object_def)
  have "\<forall>key w. map_of (class_attrs ex_shadowed) key = Some (DataDescr w) \<longrightarrow>
      getattr ex_shadowed key = Inr w"
    by (rule traversal_reads_instance_dictionary
        [OF d, of "ex_engine False (py_bool True)", THEN conjunct2, THEN conjunct2, THEN conjunct1])
  then have shadowed: "getattr ex_shadowed ''x'' = Inr (py_int 2)"
    by (simp add: ex_shadowed_def py_object_def)
  have "visitObject (ex_engine False (py_bool True)) ex_class_attrs =
     ([AttrCall (Handler 2 ''visit'') ex_class_attrs ''x'' (py_int 4), Leaf (py_int 4)], None) \<and>
   getattr ex_class_attrs ''x'' = Inr (py_int 4) \<and>
   public_fields [(''x'', py_int 4)] = [''x'']"
    using traversal_reads_instance_dictionary
      [where obj = ex_class_attrs and d = "[(''x'', py_int 4)]"
        and self = "ex_engine False (py_bool True)"]
    by (simp add: ex_class_attrs_def py_object_def public_fields_def is_private_def
      visit_field_def ex_engine_def ex_env_def visitorsFor_def getattr_def py_int_def py_bool_def
      stops_def eq_False_def is_None_def emit_def visit.simps visit_dispatch.simps visitLeaf_def
      and_then_def)
  with shadowed show ?thesis by blast
qed

text \<open>
  The class of \<open>ex_shadowed\<close> defines a property \<^verbatim>\<open>x\<close> and the instance dictionary has
  an entry \<^verbatim>\<open>x\<close>: \<^verbatim>\<open>getattr\<close> returns the property's value, which is handed to the
  field handler and visited, and the instance's value is not.
\<close>

theorem data_descriptor_shadows_instance_counterexample:
  "map_of (class_attrs ex_shadowed) ''x'' = Some (DataDescr (py_int 2)) \<and>
   inst_dict ex_shadowed = Some [(''x'', py_int 1)] \<and>
   visitObject (ex_engine False (py_bool True)) ex_shadowed =
     ([AttrCall (Handler 2 ''visit'') ex_shadowed ''x'' (py_int 2), Leaf (py_int 2)], None)"
  by (simp add: ex_shadowed_def py_object_def ex_engine_def ex_env_def visitorsFor_def
      getattr_def vars_def py_int_def py_bool_def stops_def eq_False_def is_None_def emit_def
      visit.simps visit_dispatch.simps visitObject.simps visitObject_loop.simps visitLeaf_def
      and_then_def)

end
